theory Spec2Isabelle
  imports Complex_Main "HOL-Library.Sublist" "HOL-Library.Multiset"
begin

section \<open>Strings and the regular-expression steps of the clause normalizer\<close>

text \<open>
  Source: \<^verbatim>\<open>evaluation/eval_metrics_v2.py\<close>.  A Python \<^verbatim>\<open>str\<close> is modelled as a
  \<^typ>\<open>string\<close>, each \<^typ>\<open>char\<close> standing for one code point below 256.  On that range
  the regular-expression class \<^verbatim>\<open>\d\<close> is exactly the ten ASCII digits, and
  \<^verbatim>\<open>str.strip()\<close> removes the code points listed in \<open>py_isspace\<close>.
  Scores are Python floats in the source; they are modelled as exact rationals, which
  agrees with the source on every comparison between the literals that occur
  (0.0, 0.3, 0.5, 0.6, 0.75, 1.0).
\<close>

definition is_digit :: "char \<Rightarrow> bool" where
  "is_digit c = (c \<in> set ''0123456789'')"

definition py_isspace :: "char \<Rightarrow> bool" where
  "py_isspace c =
     (c \<in> {CHR 0x09, CHR 0x0A, CHR 0x0B, CHR 0x0C, CHR 0x0D,
            CHR 0x1C, CHR 0x1D, CHR 0x1E, CHR 0x1F, CHR 0x20, CHR 0x85, CHR 0xA0})"

text \<open>\<^verbatim>\<open>s.strip()\<close> and \<^verbatim>\<open>s.strip('.')\<close>: drop the given characters at both ends.\<close>

definition strip_chars :: "(char \<Rightarrow> bool) \<Rightarrow> string \<Rightarrow> string" where
  "strip_chars p s = rev (dropWhile p (rev (dropWhile p s)))"

definition py_strip :: "string \<Rightarrow> string" where
  "py_strip s = strip_chars py_isspace s"

definition strip_dots :: "string \<Rightarrow> string" where
  "strip_dots s = strip_chars (\<lambda>c. c = CHR ''.'') s"

text \<open>\<^verbatim>\<open>re.sub(r'[^\d.]', '', clause)\<close>: delete every character that is neither a digit
  nor a dot.\<close>

definition keep_digits_dots :: "string \<Rightarrow> string" where
  "keep_digits_dots s = filter (\<lambda>c. is_digit c \<or> c = CHR ''.'') s"

text \<open>\<^verbatim>\<open>re.sub(r'\.{2,}', '.', clause)\<close>: every maximal run of two or more dots becomes
  one dot.\<close>

fun collapse_dots :: "string \<Rightarrow> string" where
  "collapse_dots (a # b # cs) =
     (if a = CHR ''.'' \<and> b = CHR ''.'' then collapse_dots (b # cs)
      else a # collapse_dots (b # cs))"
| "collapse_dots cs = cs"

text \<open>\<^verbatim>\<open>re.match(r'^\d+(\.\d+)*$', clause)\<close> as the automaton of the expression.  The flag
  says that the segment being read already holds a digit.  Python's \<^verbatim>\<open>$\<close> also matches
  just before one final newline.\<close>

fun clause_re :: "bool \<Rightarrow> string \<Rightarrow> bool" where
  "clause_re seen [] = seen"
| "clause_re seen (c # cs) =
     (if is_digit c then clause_re True cs
      else if c = CHR ''.'' \<and> seen then clause_re False cs
      else (c = CHR 0x0A \<and> cs = [] \<and> seen))"

definition matches_clause_pattern :: "string \<Rightarrow> bool" where
  "matches_clause_pattern s = clause_re False s"

text \<open>\<^verbatim>\<open>_normalize_clause\<close>; \<open>None\<close> is Python's \<^verbatim>\<open>None\<close>.\<close>

definition normalize_clause :: "string \<Rightarrow> string option" where
  "normalize_clause clause =
     (if clause = [] then None
      else
        let c1 = py_strip clause;
            c2 = keep_digits_dots c1;
            c3 = collapse_dots c2;
            c4 = strip_dots c3
        in if \<not> matches_clause_pattern c4 then None else Some c4)"

text \<open>The normalizer as the specification words it: the five steps, with no separate
  test for the empty input.\<close>

definition spec_normalize :: "string \<Rightarrow> string option" where
  "spec_normalize s =
     (let r = strip_dots (collapse_dots (keep_digits_dots (py_strip s)))
      in if matches_clause_pattern r then Some r else None)"

section \<open>The clause matcher\<close>

text \<open>\<^verbatim>\<open>s.split('.')\<close>: the segments between dots; the empty string gives one empty
  segment, so the result is never empty.\<close>

fun split_on :: "char \<Rightarrow> string \<Rightarrow> string list" where
  "split_on d [] = [[]]"
| "split_on d (c # cs) =
     (if c = d then [] # split_on d cs
      else (c # hd (split_on d cs)) # tl (split_on d cs))"

definition split_dot :: "string \<Rightarrow> string list" where
  "split_dot s = split_on (CHR ''.'') s"

text \<open>\<^verbatim>\<open>s.startswith(p)\<close>.\<close>

definition startswith :: "string \<Rightarrow> string \<Rightarrow> bool" where
  "startswith s p = (take (length p) s = p)"

text \<open>The three-way depth test that both prefix branches of
  \<^verbatim>\<open>_compute_clause_match_score\<close> share; \<open>None\<close> is the fall-through when no
  \<^verbatim>\<open>return\<close> is reached.\<close>

definition depth_score :: "nat \<Rightarrow> rat option" where
  "depth_score d =
     (if d = 1 then Some (5 / 10)
      else if d = 2 then Some (6 / 10)
      else if d \<ge> 3 then Some (75 / 100)
      else None)"

definition compute_clause_match_score :: "string \<Rightarrow> string \<Rightarrow> rat" where
  "compute_clause_match_score cited expected =
     (if cited = expected then 1
      else
        case (if startswith expected (cited @ ''.'')
              then depth_score (length (split_dot cited)) else None) of
          Some r \<Rightarrow> r
        | None \<Rightarrow>
           (case (if startswith cited (expected @ ''.'')
                  then depth_score (length (split_dot expected)) else None) of
              Some r \<Rightarrow> r
            | None \<Rightarrow>
               (if hd (split_dot cited) = hd (split_dot expected) then 3 / 10 else 0)))"

text \<open>The matcher as the specification words it, over the lists of dot-separated
  segments: equality, then a strict prefix in either direction scored by the depth of
  the shorter clause, then an equal first segment.\<close>

definition clause_depth :: "string \<Rightarrow> nat" where
  "clause_depth s = length (split_dot s)"

definition spec_match_score :: "string \<Rightarrow> string \<Rightarrow> rat" where
  "spec_match_score cited expected =
     (if cited = expected then 1
      else if strict_prefix (split_dot cited) (split_dot expected)
              \<or> strict_prefix (split_dot expected) (split_dot cited)
      then (let d = min (clause_depth cited) (clause_depth expected)
            in if d = 1 then 5 / 10 else if d = 2 then 6 / 10 else 75 / 100)
      else if hd (split_dot cited) = hd (split_dot expected) then 3 / 10
      else 0)"

section \<open>The citation grader\<close>

text \<open>The result dictionary of \<^verbatim>\<open>_grade_citation_accuracy\<close>.  The diagnostic text
  \<^verbatim>\<open>citation_details\<close> is kept as the tag of the branch that produced it.\<close>

datatype details =
    NoCitations
  | NoExpectedClause
  | ExpectedNotParsed
  | CitedNotNormalized
  | Graded

record grading =
  citation_accuracy :: rat
  correct_clause_ref :: bool
  citation_details :: details

text \<open>\<^verbatim>\<open>[e for e in xs if e]\<close>: the \<^verbatim>\<open>None\<close> results and empty strings are removed.\<close>

definition keep_valid :: "string option list \<Rightarrow> string list" where
  "keep_valid xs = concat (map (\<lambda>x. case x of None \<Rightarrow> [] | Some c \<Rightarrow> if c = [] then [] else [c]) xs)"

text \<open>\<^verbatim>\<open>[e.strip() for e in expected_clause.split(',')]\<close>, then each piece normalized.\<close>

definition expected_raw_of :: "string \<Rightarrow> string list" where
  "expected_raw_of expected_clause = map py_strip (split_on (CHR '','') expected_clause)"

definition expected_set_of :: "string \<Rightarrow> string list" where
  "expected_set_of expected_clause =
     keep_valid (map normalize_clause (expected_raw_of expected_clause))"

definition cited_set_of :: "string list \<Rightarrow> string list" where
  "cited_set_of cited_clauses = keep_valid (map normalize_clause cited_clauses)"

text \<open>The inner loop: the best score of one cited clause against the expected clauses,
  starting from 0.0 and replaced only by a strictly greater score.\<close>

definition best_score_for :: "string list \<Rightarrow> string \<Rightarrow> rat" where
  "best_score_for expected_set cited =
     foldl (\<lambda>best_score expected.
              let score = compute_clause_match_score cited expected
              in if score > best_score then score else best_score)
           0 expected_set"

text \<open>\<^verbatim>\<open>max(match_scores) if match_scores else 0.0\<close>.\<close>

definition max_or_zero :: "rat list \<Rightarrow> rat" where
  "max_or_zero match_scores =
     (case match_scores of [] \<Rightarrow> 0 | s # ss \<Rightarrow> foldl max s ss)"

definition grade_citation_accuracy :: "string list \<Rightarrow> string option \<Rightarrow> grading" where
  "grade_citation_accuracy cited_clauses expected_clause =
     (if cited_clauses = [] then
        \<lparr>citation_accuracy = 0, correct_clause_ref = False, citation_details = NoCitations\<rparr>
      else case expected_clause of
        None \<Rightarrow>
          \<lparr>citation_accuracy = 5 / 10, correct_clause_ref = False,
           citation_details = NoExpectedClause\<rparr>
      | Some expected \<Rightarrow>
          if expected = [] then
            \<lparr>citation_accuracy = 5 / 10, correct_clause_ref = False,
             citation_details = NoExpectedClause\<rparr>
          else
            let expected_set = expected_set_of expected in
            if expected_set = [] then
              \<lparr>citation_accuracy = 5 / 10, correct_clause_ref = False,
               citation_details = ExpectedNotParsed\<rparr>
            else
              let cited_set = cited_set_of cited_clauses in
              if cited_set = [] then
                \<lparr>citation_accuracy = 0, correct_clause_ref = False,
                 citation_details = CitedNotNormalized\<rparr>
              else
                let match_scores = map (best_score_for expected_set) cited_set;
                    accuracy = max_or_zero match_scores
                in \<lparr>citation_accuracy = accuracy,
                    correct_clause_ref = (accuracy \<ge> 75 / 100),
                    citation_details = Graded\<rparr>)"

section \<open>The reranker\<close>

text \<open>
  Source: \<^verbatim>\<open>app/sparkie_engine.py\<close>.  A retrieved candidate is an object whose
  attributes may be absent; the code reads each one with \<^verbatim>\<open>getattr(candidate, name,
  default)\<close>.  The attributes the reranker computes with are optional fields; the eleven
  attributes it only copies (\<^verbatim>\<open>TEXT_CONTENT\<close>, \<^verbatim>\<open>VISUAL_URL\<close>, \<^verbatim>\<open>SEARCH_ID\<close>, ...)
  travel together as \<open>attr_OTHERS\<close>.  Similarities and scores are exact rationals in
  place of floats.
\<close>

record 'p candidate =
  attr_CONTENT_ID :: "string option"
  attr_CONTENT_TYPE :: "string option"
  attr_KG_CLASS :: "string option"
  attr_SIMILARITY :: "rat option"
  attr_RANK :: "int option"
  attr_OTHERS :: 'p

text \<open>The object built by \<^verbatim>\<open>type('obj', (object,), {...})()\<close>: every attribute is
  present.\<close>

record 'p reranked =
  CONTENT_ID :: string
  CONTENT_TYPE :: string
  SIMILARITY :: rat
  RANK :: int
  KG_CLASS :: string
  RERANK_SCORE :: rat
  KG_BOOST :: rat
  OTHERS :: 'p

definition getattr :: "'a \<Rightarrow> 'a option \<Rightarrow> 'a" where
  "getattr dflt a = (case a of None \<Rightarrow> dflt | Some v \<Rightarrow> v)"

definition KG_FINAL_K :: int where
  "KG_FINAL_K = 20"

definition KG_BOOST_A :: rat where
  "KG_BOOST_A = 15 / 100"

definition KG_BOOST_B :: rat where
  "KG_BOOST_B = 5 / 100"

definition KG_PENALTY_C :: rat where
  "KG_PENALTY_C = - (10 / 100)"

definition KG_NEUTRAL_UNKNOWN :: rat where
  "KG_NEUTRAL_UNKNOWN = 0"

definition MIN_NORMATIVE_TEXT :: nat where
  "MIN_NORMATIVE_TEXT = 4"

definition MAX_NON_NORMATIVE_TEXT :: nat where
  "MAX_NON_NORMATIVE_TEXT = 2"

definition MIN_UNKNOWN_NONTEXT :: nat where
  "MIN_UNKNOWN_NONTEXT = 2"

text \<open>The boost chosen in the body of the loop of \<^verbatim>\<open>_kg_rerank_candidates\<close>.\<close>

definition kg_boost_of :: "string \<Rightarrow> string \<Rightarrow> rat" where
  "kg_boost_of content_type kg_class =
     (if content_type = ''text_chunk'' then
        (if kg_class = ''A'' then KG_BOOST_A
         else if kg_class = ''B'' then KG_BOOST_B
         else if kg_class = ''C'' then KG_PENALTY_C
         else KG_NEUTRAL_UNKNOWN)
      else KG_NEUTRAL_UNKNOWN)"

definition rerank_one :: "'p candidate \<Rightarrow> 'p reranked" where
  "rerank_one c =
     (let content_type = getattr [] (attr_CONTENT_TYPE c);
          kg_class = getattr ''UNKNOWN'' (attr_KG_CLASS c);
          similarity = getattr 0 (attr_SIMILARITY c);
          kg_boost = kg_boost_of content_type kg_class;
          rerank_score = similarity + kg_boost
      in \<lparr>CONTENT_ID = getattr [] (attr_CONTENT_ID c),
          CONTENT_TYPE = content_type,
          SIMILARITY = similarity,
          RANK = getattr 0 (attr_RANK c),
          KG_CLASS = kg_class,
          RERANK_SCORE = rerank_score,
          KG_BOOST = kg_boost,
          OTHERS = attr_OTHERS c\<rparr>)"

text \<open>\<^verbatim>\<open>xs.sort(key=k, reverse=True)\<close>.  Python's sort is stable, also under
  \<^verbatim>\<open>reverse=True\<close>: it is the stable sort by descending key, here the stable insertion
  sort of the library on the negated key.\<close>

definition sort_desc :: "('a \<Rightarrow> rat) \<Rightarrow> 'a list \<Rightarrow> 'a list" where
  "sort_desc k xs = sort_key (\<lambda>x. - k x) xs"

text \<open>\<^verbatim>\<open>for i, item in enumerate(reranked): item.RANK = i + 1\<close> on the freshly built
  objects.\<close>

definition assign_ranks :: "'p reranked list \<Rightarrow> 'p reranked list" where
  "assign_ranks xs = map (\<lambda>(i, item). item\<lparr>RANK := int i + 1\<rparr>) (enumerate 0 xs)"

definition kg_rerank_candidates :: "'p candidate list \<Rightarrow> 'p reranked list" where
  "kg_rerank_candidates candidates =
     (if candidates = [] then []
      else assign_ranks (sort_desc RERANK_SCORE (map rerank_one candidates)))"

text \<open>The adjustment table of the specification, by content type and class.\<close>

definition spec_adjustment :: "string \<Rightarrow> string \<Rightarrow> rat" where
  "spec_adjustment content_type kg_class =
     (if content_type = ''text_chunk'' \<and> kg_class = ''A'' then 15 / 100
      else if content_type = ''text_chunk'' \<and> kg_class = ''B'' then 5 / 100
      else if content_type = ''text_chunk'' \<and> kg_class = ''C'' then - (10 / 100)
      else 0)"

text \<open>A reranked object without its rank, to compare objects before and after the
  ranks are written.\<close>

definition unranked :: "'p reranked \<Rightarrow> 'p reranked" where
  "unranked x = x\<lparr>RANK := 0\<rparr>"

section \<open>The quota selection\<close>

text \<open>
  \<^verbatim>\<open>_apply_quota_selection\<close> returns a list of the very objects it was given and
  writes their \<^verbatim>\<open>RANK\<close> in place.  Objects are therefore references into a store;
  a list of candidates is a list of references, and the function returns the selected
  references together with the updated store.
\<close>

type_synonym ref = nat

type_synonym 'p store = "ref \<Rightarrow> 'p reranked"

text \<open>The categorizing loop; each candidate is appended to exactly one bucket.\<close>

fun categorize :: "'p store \<Rightarrow> ref list \<Rightarrow> ref list \<times> ref list \<times> ref list" where
  "categorize h [] = ([], [], [])"
| "categorize h (c # cs) =
     (case categorize h cs of (normative_text, non_normative_text, unknown_nontext) \<Rightarrow>
        if CONTENT_TYPE (h c) = ''text_chunk'' then
          (if KG_CLASS (h c) \<in> set [''A'', ''B''] then
             (c # normative_text, non_normative_text, unknown_nontext)
           else if KG_CLASS (h c) = ''C'' then
             (normative_text, c # non_normative_text, unknown_nontext)
           else (c # normative_text, non_normative_text, unknown_nontext))
        else (normative_text, non_normative_text, c # unknown_nontext))"

text \<open>\<^verbatim>\<open>for i, item in enumerate(final_selection): item.RANK = i + 1\<close> on the shared
  objects.\<close>

fun set_ranks_from :: "nat \<Rightarrow> ref list \<Rightarrow> 'p store \<Rightarrow> 'p store" where
  "set_ranks_from i [] h = h"
| "set_ranks_from i (r # rs) h =
     set_ranks_from (Suc i) rs (h(r := (h r)\<lparr>RANK := int i + 1\<rparr>))"

definition apply_quota_selection :: "'p store \<Rightarrow> ref list \<Rightarrow> ref list \<times> 'p store" where
  "apply_quota_selection h reranked_candidates =
     (if reranked_candidates = [] then ([], h)
      else
        case categorize h reranked_candidates of
          (normative_text, non_normative_text, unknown_nontext) \<Rightarrow>
        let normative_to_add = min MIN_NORMATIVE_TEXT (length normative_text);
            selection1 = take normative_to_add normative_text;
            unknown_to_add = min MIN_UNKNOWN_NONTEXT (length unknown_nontext);
            selection2 = selection1 @ take unknown_to_add unknown_nontext;
            remaining_slots = KG_FINAL_K - int (length selection2);
            selection3 =
              (if remaining_slots > 0 then
                 let remaining_candidates =
                       drop normative_to_add normative_text
                       @ drop unknown_to_add unknown_nontext
                       @ take MAX_NON_NORMATIVE_TEXT non_normative_text;
                     sorted_remaining =
                       sort_desc (\<lambda>r. RERANK_SCORE (h r)) remaining_candidates
                 in selection2 @ take (nat remaining_slots) sorted_remaining
               else selection2);
            final_selection = sort_desc (\<lambda>r. RERANK_SCORE (h r)) selection3
        in (final_selection, set_ranks_from 0 final_selection h))"

text \<open>The three buckets as the specification names them.  Classes are strings in the
  source: a text chunk is normative unless its class is \<^verbatim>\<open>C\<close>, which covers the classes
  \<^verbatim>\<open>A\<close> and \<^verbatim>\<open>B\<close> and every unknown class.\<close>

definition is_normative_text :: "'p store \<Rightarrow> ref \<Rightarrow> bool" where
  "is_normative_text h r =
     (CONTENT_TYPE (h r) = ''text_chunk'' \<and> KG_CLASS (h r) \<noteq> ''C'')"

definition is_non_normative_text :: "'p store \<Rightarrow> ref \<Rightarrow> bool" where
  "is_non_normative_text h r =
     (CONTENT_TYPE (h r) = ''text_chunk'' \<and> KG_CLASS (h r) = ''C'')"

definition is_non_text :: "'p store \<Rightarrow> ref \<Rightarrow> bool" where
  "is_non_text h r = (CONTENT_TYPE (h r) \<noteq> ''text_chunk'')"

section \<open>The conditional-risk metric\<close>

text \<open>
  Source: \<^verbatim>\<open>_evaluate_kg_metrics\<close> in \<^verbatim>\<open>evaluation/eval_metrics_v2.py\<close>, metric 3.
  A retrieved item is a dictionary read with \<^verbatim>\<open>item.get(key, default)\<close>; only the keys
  \<^verbatim>\<open>content_id\<close> and \<^verbatim>\<open>kg_class\<close> matter here.  The list \<open>cited_content_ids\<close> is
  the value of \<^verbatim>\<open>_extract_cited_content_ids(answer, retrieved_context)\<close>, which the
  specification takes as an input of the metric.  The regular-expression engine is a
  parameter: \<open>re_search pattern text\<close> stands for
  \<^verbatim>\<open>re.search(pattern, text, re.IGNORECASE)\<close> finding a match.
\<close>

record ctx_item =
  item_content_id :: "string option"
  item_kg_class :: "string option"

text \<open>A counting dictionary in insertion order, \<^verbatim>\<open>d[k] = d.get(k, 0) + 1\<close> and
  \<^verbatim>\<open>d.get(k, 0)\<close>.\<close>

fun dict_incr :: "string \<Rightarrow> (string \<times> nat) list \<Rightarrow> (string \<times> nat) list" where
  "dict_incr k [] = [(k, 1)]"
| "dict_incr k ((k', n) # d) =
     (if k = k' then (k', n + 1) # d else (k', n) # dict_incr k d)"

definition dict_get0 :: "(string \<times> nat) list \<Rightarrow> string \<Rightarrow> nat" where
  "dict_get0 d k = (case map_of d k of None \<Rightarrow> 0 | Some n \<Rightarrow> n)"

definition retrieved_kg_classes_of :: "ctx_item list \<Rightarrow> (string \<times> nat) list" where
  "retrieved_kg_classes_of retrieved_context =
     foldl (\<lambda>d item. dict_incr (getattr ''UNKNOWN'' (item_kg_class item)) d)
           [] retrieved_context"

text \<open>For each cited id, the first retrieved item with that id counts (the inner loop
  ends with \<^verbatim>\<open>break\<close>).\<close>

definition cited_kg_classes_of :: "ctx_item list \<Rightarrow> string list \<Rightarrow> (string \<times> nat) list" where
  "cited_kg_classes_of retrieved_context cited_content_ids =
     foldl (\<lambda>d content_id.
              case find (\<lambda>item. item_content_id item = Some content_id) retrieved_context of
                None \<Rightarrow> d
              | Some item \<Rightarrow> dict_incr (getattr ''UNKNOWN'' (item_kg_class item)) d)
           [] cited_content_ids"

text \<open>The fourteen patterns; \<open>wb\<close> is the word-boundary escape \<^verbatim>\<open>\b\<close>.\<close>

definition wb :: string where
  "wb = [CHR 0x5C, CHR ''b'']"

definition conditional_language_patterns :: "string list" where
  "conditional_language_patterns =
     [wb @ ''where'' @ wb, wb @ ''when'' @ wb, wb @ ''if'' @ wb, wb @ ''unless'' @ wb,
      wb @ ''only if'' @ wb, wb @ ''in cases where'' @ wb, wb @ ''provided that'' @ wb,
      wb @ ''subject to'' @ wb, wb @ ''depending on'' @ wb, wb @ ''may'' @ wb,
      wb @ ''can'' @ wb,
      wb @ ''shall.*where'' @ wb, wb @ ''must.*when'' @ wb, wb @ ''required.*if'' @ wb]"

definition has_conditional_language :: "(string \<Rightarrow> string \<Rightarrow> bool) \<Rightarrow> string \<Rightarrow> bool" where
  "has_conditional_language re_search answer =
     list_ex (\<lambda>pattern. re_search pattern answer) conditional_language_patterns"

definition kg_conditional_risk ::
  "(string \<Rightarrow> string \<Rightarrow> bool) \<Rightarrow> string \<Rightarrow> ctx_item list \<Rightarrow> string list \<Rightarrow> rat" where
  "kg_conditional_risk re_search answer retrieved_context cited_content_ids =
     (let retrieved_kg_classes = retrieved_kg_classes_of retrieved_context;
          cited_kg_classes = cited_kg_classes_of retrieved_context cited_content_ids;
          total_cited = sum_list (map snd cited_kg_classes);
          b_chunks_cited = dict_get0 cited_kg_classes ''B'';
          b_chunks_retrieved = dict_get0 retrieved_kg_classes ''B'';
          has_language = has_conditional_language re_search answer
      in if b_chunks_cited > 0 then (if has_language then 1 else 0)
         else if b_chunks_retrieved > 0 \<and> total_cited > 0 then
           (if has_language then 1 else 5 / 10)
         else 1)"

text \<open>The words of the specification: the retrieved items that are cited, and whether
  an item of class B is among a list of items.\<close>

definition cited_items :: "ctx_item list \<Rightarrow> string list \<Rightarrow> ctx_item list" where
  "cited_items retrieved_context cited_content_ids =
     List.map_filter
       (\<lambda>content_id. find (\<lambda>item. item_content_id item = Some content_id) retrieved_context)
       cited_content_ids"

definition has_class_B :: "ctx_item list \<Rightarrow> bool" where
  "has_class_B items = list_ex (\<lambda>item. item_kg_class item = Some ''B'') items"

section \<open>Auxiliary notions for the proofs\<close>

text \<open>\<^verbatim>\<open>d.join(ws)\<close>, the inverse of splitting.\<close>

fun join_on :: "char \<Rightarrow> string list \<Rightarrow> string" where
  "join_on d [] = []"
| "join_on d [w] = w"
| "join_on d (w # v # ws) = w @ d # join_on d (v # ws)"

text \<open>A clause id of the data model: one or more non-empty runs of digits, separated by
  single dots.\<close>

definition is_clause_id :: "string \<Rightarrow> bool" where
  "is_clause_id s =
     list_all (\<lambda>seg. seg \<noteq> [] \<and> list_all is_digit seg) (split_dot s)"

text \<open>The selected list before the final sort, with the slot count spelled out; the
  fill step always runs, since the two quota steps take at most six items.\<close>

definition selection_of :: "'p store \<Rightarrow> ref list \<Rightarrow> ref list" where
  "selection_of h xs =
     (let N = filter (is_normative_text h) xs;
          C = filter (is_non_normative_text h) xs;
          U = filter (is_non_text h) xs;
          a = min 4 (length N);
          b = min 2 (length U)
      in take a N @ take b U
         @ take (20 - (a + b))
             (sort_desc (\<lambda>r. RERANK_SCORE (h r)) (drop a N @ drop b U @ take 2 C)))"

text \<open>A small store for concrete runs of the quota selection: three class-C text
  chunks, four normative text chunks (one of them without a class), a table and a
  picture.\<close>

definition example_object :: "string \<Rightarrow> string \<Rightarrow> rat \<Rightarrow> unit reranked" where
  "example_object content_type kg_class score =
     \<lparr>CONTENT_ID = [], CONTENT_TYPE = content_type, SIMILARITY = score, RANK = 0,
      KG_CLASS = kg_class, RERANK_SCORE = score, KG_BOOST = 0, OTHERS = ()\<rparr>"

definition example_store :: "unit store" where
  "example_store r =
     (if r = 10 then example_object ''text_chunk'' ''C'' (9 / 10)
      else if r = 11 then example_object ''text_chunk'' ''A'' (8 / 10)
      else if r = 12 then example_object ''structured_table'' ''UNKNOWN'' (7 / 10)
      else if r = 13 then example_object ''text_chunk'' ''B'' (6 / 10)
      else if r = 14 then example_object ''text_chunk'' ''C'' (5 / 10)
      else if r = 15 then example_object ''text_chunk'' ''UNKNOWN'' (4 / 10)
      else if r = 16 then example_object ''text_chunk'' ''C'' (3 / 10)
      else if r = 17 then example_object ''text_chunk'' ''A'' (2 / 10)
      else example_object ''visual_content'' ''UNKNOWN'' (1 / 10))"

text \<open>A fragment of \<^verbatim>\<open>re.search\<close> for concrete runs of the conditional-risk metric: of
  the fourteen patterns only \<^verbatim>\<open>\bif\b\<close> is found in the text \<^verbatim>\<open>if\<close>, and none is found
  in the text \<^verbatim>\<open>no\<close>.\<close>

definition example_search :: "string \<Rightarrow> string \<Rightarrow> bool" where
  "example_search pattern text = (pattern = wb @ ''if'' @ wb \<and> text = ''if'')"

definition example_item :: "string \<Rightarrow> string \<Rightarrow> ctx_item" where
  "example_item content_id kg_class =
     \<lparr>item_content_id = Some content_id, item_kg_class = Some kg_class\<rparr>"

text \<open>Two neighbouring characters are not both dots.\<close>

definition not_both_dots :: "char \<Rightarrow> char \<Rightarrow> bool" where
  "not_both_dots a b = (\<not> (a = CHR ''.'' \<and> b = CHR ''.''))"

text \<open>Every clause of a list fails normalization.\<close>

definition all_fail :: "string list \<Rightarrow> bool" where
  "all_fail clauses = list_all (\<lambda>c. normalize_clause c = None) clauses"

text \<open>The accuracy as the specification words it: the greatest, over the cited clauses,
  of the greatest score against the expected clauses.\<close>

definition spec_accuracy :: "string list \<Rightarrow> string list \<Rightarrow> rat" where
  "spec_accuracy cited_set expected_set =
     Max ((\<lambda>cited. Max ((\<lambda>expected. compute_clause_match_score cited expected)
                          ` set expected_set)) ` set cited_set)"

section \<open>Splitting and joining\<close>

lemma split_on_not_Nil: "split_on d s \<noteq> []"
  by (induction s) auto

lemma split_on_append:
  "split_on d (a @ d # b) = split_on d a @ split_on d b"
proof (induction a)
  case Nil
  then show ?case by simp
next
  case (Cons c a)
  then show ?case
    using split_on_not_Nil [of d a] by (cases "split_on d a") auto
qed

lemma join_split_on: "join_on d (split_on d s) = s"
proof (induction s)
  case Nil
  then show ?case by simp
next
  case (Cons c s)
  show ?case
  proof (cases "split_on d s")
    case Nil
    then show ?thesis using split_on_not_Nil by blast
  next
    case (Cons w ws)
    with Cons.IH show ?thesis by (cases ws) auto
  qed
qed

lemma join_on_append:
  "xs \<noteq> [] \<Longrightarrow> ys \<noteq> [] \<Longrightarrow> join_on d (xs @ ys) = join_on d xs @ d # join_on d ys"
proof (induction d xs rule: join_on.induct)
  case (1 d)
  then show ?case by simp
next
  case (2 d w)
  then show ?case by (cases ys) auto
next
  case (3 d w v ws)
  then show ?case by simp
qed

lemma startswith_prefix: "startswith s p \<longleftrightarrow> prefix p s"
  unfolding startswith_def
  by (metis append_eq_conv_conj prefix_def take_is_prefix)

text \<open>A string starts with \<open>a\<close> followed by the separator exactly when the segments of
  \<open>a\<close> are a strict prefix of its own segments.\<close>

lemma startswith_sep_iff:
  "startswith b (a @ [d]) \<longleftrightarrow> strict_prefix (split_on d a) (split_on d b)"
proof
  assume "startswith b (a @ [d])"
  then obtain r where b: "b = a @ d # r"
    by (auto simp: startswith_prefix prefix_def)
  show "strict_prefix (split_on d a) (split_on d b)"
    unfolding b split_on_append using split_on_not_Nil [of d r]
    by (simp add: strict_prefix_def)
next
  assume "strict_prefix (split_on d a) (split_on d b)"
  then obtain zs where zs: "split_on d b = split_on d a @ zs" "zs \<noteq> []"
    by (auto simp: strict_prefix_def prefix_def)
  have "b = join_on d (split_on d a @ zs)"
    using zs(1) join_split_on [of d b] by simp
  also have "\<dots> = a @ d # join_on d zs"
    using join_on_append [OF split_on_not_Nil zs(2)] by (simp add: join_split_on)
  finally show "startswith b (a @ [d])"
    by (simp add: startswith_prefix prefix_def)
qed

lemma depth_score_pos:
  "d \<noteq> 0 \<Longrightarrow>
   depth_score d = Some (if d = 1 then 5 / 10 else if d = 2 then 6 / 10 else 75 / 100)"
  by (auto simp: depth_score_def)

section \<open>The clause matcher meets its specification\<close>

lemma match_score_refines:
  "compute_clause_match_score cited expected = spec_match_score cited expected"
proof -
  let ?c = "split_dot cited" and ?e = "split_dot expected"
  have c0: "length ?c \<noteq> 0" and e0: "length ?e \<noteq> 0"
    by (simp_all add: split_dot_def split_on_not_Nil)
  have sw1: "startswith expected (cited @ ''.'') \<longleftrightarrow> strict_prefix ?c ?e"
    using startswith_sep_iff [of expected cited "CHR ''.''"] by (simp add: split_dot_def)
  have sw2: "startswith cited (expected @ ''.'') \<longleftrightarrow> strict_prefix ?e ?c"
    using startswith_sep_iff [of cited expected "CHR ''.''"] by (simp add: split_dot_def)
  have m1: "strict_prefix ?c ?e \<Longrightarrow> min (length ?c) (length ?e) = length ?c"
    by (auto simp: strict_prefix_def dest: prefix_length_le)
  have m2: "strict_prefix ?e ?c \<Longrightarrow> min (length ?c) (length ?e) = length ?e"
    by (auto simp: strict_prefix_def dest: prefix_length_le)
  show ?thesis
  proof (cases "cited = expected")
    case True
    then show ?thesis
      by (simp add: compute_clause_match_score_def spec_match_score_def)
  next
    case ne: False
    show ?thesis
    proof (cases "strict_prefix ?c ?e")
      case True
      then show ?thesis
        using ne m1 depth_score_pos [OF c0]
        by (simp add: compute_clause_match_score_def spec_match_score_def sw1
            clause_depth_def Let_def)
    next
      case np: False
      show ?thesis
      proof (cases "strict_prefix ?e ?c")
        case True
        then show ?thesis
          using ne np m2 depth_score_pos [OF e0]
          by (simp add: compute_clause_match_score_def spec_match_score_def sw1 sw2
              clause_depth_def Let_def)
      next
        case False
        then show ?thesis
          using ne np
          by (simp add: compute_clause_match_score_def spec_match_score_def sw1 sw2)
      qed
    qed
  qed
qed

lemmas match_score_eval =
  compute_clause_match_score_def startswith_def split_dot_def depth_score_def

text \<open>
  Claim C1.  For every cited and expected clause (normalized or not) the score computed
  by \<^verbatim>\<open>_compute_clause_match_score\<close> is the score of the specification: 1.0 for equal
  strings; otherwise, when the dot-separated segments of one clause are a strict prefix
  of the segments of the other, 0.5, 0.6 or 0.75 as the shorter clause has depth 1, 2 or
  at least 3; otherwise 0.3 when the first segments are equal; otherwise 0.0.  The five
  examples of the specification are evaluated.
\<close>

theorem clause_match_score_correct:
  "compute_clause_match_score cited expected = spec_match_score cited expected
   \<and> compute_clause_match_score ''1.4'' ''1.4.32'' = 6 / 10
   \<and> compute_clause_match_score ''1.4.32'' ''1.4'' = 6 / 10
   \<and> compute_clause_match_score ''1.4'' ''1.5'' = 3 / 10
   \<and> compute_clause_match_score ''2.1'' ''1.1'' = 0
   \<and> compute_clause_match_score ''1.4'' ''1.4'' = 1"
proof -
  have "compute_clause_match_score ''1.4'' ''1.4.32'' = 6 / 10"
    by (simp add: match_score_eval)
  moreover have "compute_clause_match_score ''1.4.32'' ''1.4'' = 6 / 10"
    by (simp add: match_score_eval)
  moreover have "compute_clause_match_score ''1.4'' ''1.5'' = 3 / 10"
    by (simp add: match_score_eval)
  moreover have "compute_clause_match_score ''2.1'' ''1.1'' = 0"
    by (simp add: match_score_eval)
  moreover have "compute_clause_match_score ''1.4'' ''1.4'' = 1"
    by (simp add: match_score_eval)
  ultimately show ?thesis
    using match_score_refines by blast
qed

section \<open>The clause normalizer\<close>

lemma is_digit_dot [simp]: "\<not> is_digit (CHR ''.'')"
  by (simp add: is_digit_def)

lemma set_strip_chars: "set (strip_chars p s) \<subseteq> set s"
proof -
  have "set (dropWhile p (rev (dropWhile p s))) \<subseteq> set (rev (dropWhile p s))"
    by (rule set_dropWhileD [THEN subsetI])
  also have "\<dots> \<subseteq> set s"
    by (auto dest: set_dropWhileD)
  finally show ?thesis by (simp add: strip_chars_def)
qed

lemma set_collapse_dots: "set (collapse_dots s) \<subseteq> set s"
  by (induction s rule: collapse_dots.induct) auto

text \<open>On a string of digits and dots the automaton accepts exactly when every segment
  is a non-empty run of digits; with the flag set, the first segment may be empty.\<close>

lemma clause_re_segments:
  "list_all (\<lambda>c. is_digit c \<or> c = CHR ''.'') r \<Longrightarrow>
   clause_re seen r =
     ((seen \<or> hd (split_on (CHR ''.'') r) \<noteq> [])
      \<and> list_all is_digit (hd (split_on (CHR ''.'') r))
      \<and> list_all (\<lambda>seg. seg \<noteq> [] \<and> list_all is_digit seg) (tl (split_on (CHR ''.'') r)))"
proof (induction r arbitrary: seen)
  case Nil
  then show ?case by simp
next
  case (Cons c r)
  obtain w ws where sp: "split_on (CHR ''.'') r = w # ws"
    using split_on_not_Nil [of "CHR ''.''" r] by (cases "split_on (CHR ''.'') r") auto
  from Cons.prems have r: "list_all (\<lambda>c. is_digit c \<or> c = CHR ''.'') r"
    and c: "is_digit c \<or> c = CHR ''.''" by simp_all
  show ?case
  proof (cases "is_digit c")
    case True
    then have "c \<noteq> CHR ''.''" by auto
    with True show ?thesis
      using Cons.IH [OF r, of True] by (simp add: sp)
  next
    case False
    with c have cd: "c = CHR ''.''" by simp
    show ?thesis
      using Cons.IH [OF r, of False] by (auto simp: cd sp)
  qed
qed

lemma matches_is_clause_id:
  assumes "list_all (\<lambda>c. is_digit c \<or> c = CHR ''.'') r"
  shows "matches_clause_pattern r = is_clause_id r"
proof -
  obtain w ws where sp: "split_on (CHR ''.'') r = w # ws"
    using split_on_not_Nil [of "CHR ''.''" r] by (cases "split_on (CHR ''.'') r") auto
  show ?thesis
    using clause_re_segments [OF assms, of False]
    by (auto simp: matches_clause_pattern_def is_clause_id_def split_dot_def sp)
qed

lemma normalized_digits_dots:
  "list_all (\<lambda>c. is_digit c \<or> c = CHR ''.'')
     (strip_dots (collapse_dots (keep_digits_dots t)))"
proof -
  have "set (strip_dots (collapse_dots (keep_digits_dots t))) \<subseteq> set (keep_digits_dots t)"
    unfolding strip_dots_def using set_strip_chars set_collapse_dots by blast
  then show ?thesis
    by (auto simp: list_all_iff keep_digits_dots_def)
qed

lemma normalize_refines: "normalize_clause s = spec_normalize s"
  by (simp add: normalize_clause_def spec_normalize_def Let_def py_strip_def strip_dots_def
      strip_chars_def keep_digits_dots_def matches_clause_pattern_def)

lemma successively_dropWhile: "successively P xs \<Longrightarrow> successively P (dropWhile q xs)"
proof (induction xs)
  case Nil
  then show ?case by simp
next
  case (Cons a xs)
  then show ?case by (cases xs) (auto simp: successively_Cons)
qed

lemma not_both_dots_sym: "(\<lambda>x y. not_both_dots y x) = not_both_dots"
  by (auto simp: not_both_dots_def fun_eq_iff)

lemma successively_rev_dots:
  "successively not_both_dots (rev xs) \<longleftrightarrow> successively not_both_dots xs"
proof -
  have "successively not_both_dots (rev xs) \<longleftrightarrow> successively (\<lambda>x y. not_both_dots y x) xs"
    by (rule successively_rev)
  also have "\<dots> \<longleftrightarrow> successively not_both_dots xs"
    by (rule arg_cong [where f = "\<lambda>P. successively P xs", OF not_both_dots_sym])
  finally show ?thesis .
qed

lemma collapse_dots_Cons: "\<exists>ys. collapse_dots (b # cs) = b # ys"
proof (induction cs arbitrary: b)
  case Nil
  then show ?case by simp
next
  case (Cons c cs)
  then show ?case by auto
qed

lemma no_double_dots_collapse: "successively not_both_dots (collapse_dots s)"
proof (induction s rule: collapse_dots.induct)
  case (1 a b cs)
  show ?case
  proof (cases "a = CHR ''.'' \<and> b = CHR ''.''")
    case True
    with 1 show ?thesis by simp
  next
    case False
    then have nb: "not_both_dots a b" by (simp add: not_both_dots_def)
    from False 1 have ih: "successively not_both_dots (collapse_dots (b # cs))" by simp
    obtain ys where c: "collapse_dots (b # cs) = b # ys"
      using collapse_dots_Cons by blast
    have "collapse_dots (a # b # cs) = a # b # ys"
      using False c by auto
    moreover have "successively not_both_dots (a # b # ys)"
      using ih nb unfolding c by (simp add: successively_Cons)
    ultimately show ?thesis by simp
  qed
qed simp_all

lemma no_double_dots_strip:
  assumes "successively not_both_dots c"
  shows "successively not_both_dots (strip_dots c)"
proof -
  have "successively not_both_dots (dropWhile (\<lambda>c. c = CHR ''.'') c)"
    using assms by (rule successively_dropWhile)
  then have "successively not_both_dots (rev (dropWhile (\<lambda>c. c = CHR ''.'') c))"
    by (simp only: successively_rev_dots)
  then have "successively not_both_dots
          (dropWhile (\<lambda>c. c = CHR ''.'') (rev (dropWhile (\<lambda>c. c = CHR ''.'') c)))"
    by (rule successively_dropWhile)
  then show ?thesis
    by (simp only: strip_dots_def strip_chars_def successively_rev_dots)
qed

lemma last_dropWhile_nonempty:
  "dropWhile p ys \<noteq> [] \<Longrightarrow> last (dropWhile p ys) = last ys"
  by (induction ys) auto

lemma strip_dots_ends:
  assumes "strip_dots c \<noteq> []"
  shows "hd (strip_dots c) \<noteq> CHR ''.''" and "last (strip_dots c) \<noteq> CHR ''.''"
proof -
  define c' where "c' = dropWhile (\<lambda>c. c = CHR ''.'') c"
  define d where "d = dropWhile (\<lambda>c. c = CHR ''.'') (rev c')"
  have r: "strip_dots c = rev d"
    by (simp add: strip_dots_def strip_chars_def d_def c'_def)
  have d: "d \<noteq> []"
    using assms r by simp
  then have c': "c' \<noteq> []"
    by (auto simp: d_def)
  have "last (strip_dots c) = hd d"
    using d by (simp add: r last_rev)
  moreover have "hd d \<noteq> CHR ''.''"
    using hd_dropWhile [of "\<lambda>c. c = CHR ''.''" "rev c'"] d by (simp add: d_def)
  ultimately show "last (strip_dots c) \<noteq> CHR ''.''"
    by simp
  have "hd (strip_dots c) = last d"
    using d by (simp add: r hd_rev)
  also have "\<dots> = last (rev c')"
    unfolding d_def using d by (intro last_dropWhile_nonempty) (simp add: d_def)
  also have "\<dots> = hd c'"
    using c' by (simp add: last_rev)
  finally have "hd (strip_dots c) = hd c'" .
  moreover have "hd c' \<noteq> CHR ''.''"
    using hd_dropWhile [of "\<lambda>c. c = CHR ''.''" c] c' by (simp add: c'_def)
  ultimately show "hd (strip_dots c) \<noteq> CHR ''.''"
    by simp
qed

text \<open>A non-empty string of digits and single dots that does not end in a dot is
  accepted, from the start if it does not begin with a dot.\<close>

lemma clause_re_accepts:
  "list_all (\<lambda>c. is_digit c \<or> c = CHR ''.'') r \<Longrightarrow>
   successively not_both_dots r \<Longrightarrow>
   r \<noteq> [] \<Longrightarrow> last r \<noteq> CHR ''.'' \<Longrightarrow> hd r \<noteq> CHR ''.'' \<or> seen \<Longrightarrow>
   clause_re seen r"
proof (induction r arbitrary: seen)
  case Nil
  then show ?case by simp
next
  case (Cons c cs)
  show ?case
  proof (cases "cs = []")
    case True
    with Cons.prems show ?thesis by auto
  next
    case False
    then obtain b bs where cs: "cs = b # bs" by (cases cs) auto
    from Cons.prems False have
      la: "list_all (\<lambda>c. is_digit c \<or> c = CHR ''.'') cs"
      and su: "successively not_both_dots cs"
      and ls: "last cs \<noteq> CHR ''.''"
      and ad: "\<not> (c = CHR ''.'' \<and> hd cs = CHR ''.'')"
      by (auto simp: cs successively_Cons not_both_dots_def)
    show ?thesis
    proof (cases "is_digit c")
      case True
      then show ?thesis
        using Cons.IH [OF la su False ls, of True] by simp
    next
      case nd: False
      with Cons.prems have dot: "c = CHR ''.''" and seen: seen by auto
      from ad dot have "hd cs \<noteq> CHR ''.''" by simp
      then show ?thesis
        using Cons.IH [OF la su False ls, of False] dot seen by simp
    qed
  qed
qed

lemma digit_in_collapse:
  "is_digit x \<Longrightarrow> x \<in> set (collapse_dots s) \<longleftrightarrow> x \<in> set s"
  by (induction s rule: collapse_dots.induct) auto

lemma digit_in_strip_chars:
  assumes "\<not> p x"
  shows "x \<in> set (strip_chars p s) \<longleftrightarrow> x \<in> set s"
proof -
  have *: "x \<in> set (dropWhile p ys) \<longleftrightarrow> x \<in> set ys" for ys
  proof
    assume "x \<in> set (dropWhile p ys)"
    then show "x \<in> set ys" by (rule set_dropWhileD)
  next
    assume "x \<in> set ys"
    then have "x \<in> set (takeWhile p ys) \<union> set (dropWhile p ys)"
      by (metis set_append takeWhile_dropWhile_id)
    then show "x \<in> set (dropWhile p ys)"
      using assms by (auto dest: set_takeWhileD)
  qed
  show ?thesis
    by (simp add: strip_chars_def *)
qed

lemma digit_not_space: "is_digit x \<Longrightarrow> \<not> py_isspace x"
  by (auto simp: is_digit_def py_isspace_def)

text \<open>The validation step can only fail on the empty string: normalization fails
  exactly on the inputs without a digit.\<close>

lemma normalize_None_iff: "normalize_clause s = None \<longleftrightarrow> \<not> list_ex is_digit s"
proof -
  let ?t = "keep_digits_dots (py_strip s)"
  let ?r = "strip_dots (collapse_dots ?t)"
  have dd: "list_all (\<lambda>c. is_digit c \<or> c = CHR ''.'') ?r"
    by (rule normalized_digits_dots)
  have digits: "x \<in> set ?r \<longleftrightarrow> x \<in> set s" if "is_digit x" for x
  proof -
    have "x \<noteq> CHR ''.''" using that by auto
    then have "x \<in> set ?r \<longleftrightarrow> x \<in> set (collapse_dots ?t)"
      unfolding strip_dots_def by (intro digit_in_strip_chars) simp
    also have "\<dots> \<longleftrightarrow> x \<in> set ?t"
      using that by (rule digit_in_collapse)
    also have "\<dots> \<longleftrightarrow> x \<in> set (py_strip s)"
      using that by (simp add: keep_digits_dots_def)
    also have "\<dots> \<longleftrightarrow> x \<in> set s"
      unfolding py_strip_def using that by (intro digit_in_strip_chars digit_not_space)
    finally show ?thesis .
  qed
  have m: "matches_clause_pattern ?r \<longleftrightarrow> ?r \<noteq> []"
  proof
    assume "matches_clause_pattern ?r"
    then show "?r \<noteq> []" by (auto simp: matches_clause_pattern_def)
  next
    assume ne: "?r \<noteq> []"
    show "matches_clause_pattern ?r"
      unfolding matches_clause_pattern_def
      using dd no_double_dots_strip [OF no_double_dots_collapse] ne
        strip_dots_ends(2) [OF ne] strip_dots_ends(1) [OF ne]
      by (intro clause_re_accepts) auto
  qed
  have "?r \<noteq> [] \<longleftrightarrow> list_ex is_digit s"
  proof
    assume ne: "?r \<noteq> []"
    then have "hd ?r \<in> set ?r" by simp
    moreover have "hd ?r \<noteq> CHR ''.''" by (rule strip_dots_ends(1) [OF ne])
    ultimately have "is_digit (hd ?r)"
      using dd by (auto simp: list_all_iff)
    with \<open>hd ?r \<in> set ?r\<close> digits show "list_ex is_digit s"
      by (auto simp: list_ex_iff)
  next
    assume "list_ex is_digit s"
    then obtain x where "x \<in> set s" "is_digit x" by (auto simp: list_ex_iff)
    then have "x \<in> set ?r" using digits by simp
    then show "?r \<noteq> []" by auto
  qed
  with m show ?thesis
    by (auto simp: normalize_refines spec_normalize_def Let_def)
qed

lemmas normalize_eval =
  normalize_clause_def py_strip_def strip_chars_def py_isspace_def keep_digits_dots_def
  is_digit_def strip_dots_def matches_clause_pattern_def

text \<open>
  Claim C8.  For every input string, \<^verbatim>\<open>_normalize_clause\<close> returns what the five steps
  of the specification return (trim whitespace, delete every character other than
  digits and dots, collapse runs of dots, strip leading and trailing dots, validate):
  either the cleaned string, which then matches the pattern and is a clause id of the
  data model, or \<open>None\<close> when the cleaned string fails the pattern, which happens
  exactly for the inputs that hold no digit.  The model is a total function, so no
  input raises.  The examples of the specification are evaluated.
\<close>

theorem normalize_clause_correct:
  "normalize_clause s = spec_normalize s
   \<and> (case normalize_clause s of
        None \<Rightarrow>
          \<not> matches_clause_pattern (strip_dots (collapse_dots (keep_digits_dots (py_strip s))))
      | Some r \<Rightarrow>
          r = strip_dots (collapse_dots (keep_digits_dots (py_strip s)))
          \<and> matches_clause_pattern r \<and> is_clause_id r)
   \<and> (normalize_clause s = None) = (\<not> list_ex is_digit s)
   \<and> normalize_clause ''Clause 1..4.'' = Some ''1.4''
   \<and> normalize_clause ''abc'' = None
   \<and> normalize_clause ''.'' = None
   \<and> normalize_clause [] = None"
proof -
  let ?r = "strip_dots (collapse_dots (keep_digits_dots (py_strip s)))"
  have id: "matches_clause_pattern ?r = is_clause_id ?r"
    by (rule matches_is_clause_id [OF normalized_digits_dots])
  have "case normalize_clause s of
          None \<Rightarrow> \<not> matches_clause_pattern ?r
        | Some r \<Rightarrow> r = ?r \<and> matches_clause_pattern r \<and> is_clause_id r"
    using id by (simp add: normalize_refines spec_normalize_def Let_def)
  moreover have "normalize_clause ''Clause 1..4.'' = Some ''1.4''"
    by (simp add: normalize_eval)
  moreover have "normalize_clause ''abc'' = None"
    by (simp add: normalize_eval)
  moreover have "normalize_clause ''.'' = None"
    by (simp add: normalize_eval)
  moreover have "normalize_clause [] = None"
    by (simp add: normalize_eval)
  ultimately show ?thesis
    using normalize_refines normalize_None_iff by blast
qed

section \<open>The citation grader\<close>

lemma match_score_nonneg: "0 \<le> compute_clause_match_score cited expected"
  by (simp add: match_score_refines spec_match_score_def Let_def)

lemma foldl_best_Max:
  "foldl (\<lambda>best e. let s = f e in if s > best then s else best) b es
   = Max (insert (b::rat) (f ` set es))"
proof (induction es arbitrary: b)
  case Nil
  then show ?case by simp
next
  case (Cons e es)
  have "Max (insert (max b (f e)) (f ` set es)) = Max (insert b (insert (f e) (f ` set es)))"
    by (cases "es = []") (simp_all add: max.assoc)
  moreover have "(if f e > b then f e else b) = max b (f e)"
    by (simp add: max_def)
  ultimately show ?case
    using Cons.IH [of "max b (f e)"] by (simp add: Let_def)
qed

lemma best_score_for_Max:
  assumes "expected_set \<noteq> []"
  shows "best_score_for expected_set cited
         = Max ((\<lambda>expected. compute_clause_match_score cited expected) ` set expected_set)"
proof -
  let ?S = "(\<lambda>expected. compute_clause_match_score cited expected) ` set expected_set"
  have fin: "finite ?S" and ne: "?S \<noteq> {}"
    using assms by simp_all
  obtain e where "e \<in> set expected_set"
    using assms by (cases expected_set) auto
  then have "0 \<le> Max ?S"
    using fin ne match_score_nonneg [of cited e] by (auto simp: Max_ge_iff)
  then have "Max (insert 0 ?S) = Max ?S"
    using fin ne by (simp add: max_def)
  then show ?thesis
    by (simp add: best_score_for_def foldl_best_Max)
qed

lemma foldl_max_Max: "foldl max (a::rat) xs = Max (insert a (set xs))"
proof (induction xs arbitrary: a)
  case Nil
  then show ?case by simp
next
  case (Cons x xs)
  have "Max (insert (max a x) (set xs)) = Max (insert a (insert x (set xs)))"
    by (cases "xs = []") (simp_all add: max.assoc)
  then show ?case
    using Cons.IH [of "max a x"] by simp
qed

lemma max_or_zero_Max: "xs \<noteq> [] \<Longrightarrow> max_or_zero xs = Max (set xs)"
  by (cases xs) (simp_all add: max_or_zero_def foldl_max_Max)

lemma normalize_not_empty: "normalize_clause c \<noteq> Some []"
  by (auto simp: normalize_clause_def Let_def matches_clause_pattern_def)

lemma keep_valid_Nil_iff:
  "keep_valid (map normalize_clause cs) = [] \<longleftrightarrow> all_fail cs"
  by (induction cs)
    (auto simp: keep_valid_def all_fail_def normalize_not_empty split: option.splits)

lemma expected_set_of_Nil [simp]: "expected_set_of [] = []"
  by (simp add: expected_set_of_def expected_raw_of_def keep_valid_def normalize_eval)

lemma cited_set_of_Nil [simp]: "cited_set_of [] = []"
  by (simp add: cited_set_of_def keep_valid_def)

lemma grade_graded:
  assumes "cited_set_of cited_clauses \<noteq> []" and "expected_set_of expected \<noteq> []"
  shows "grade_citation_accuracy cited_clauses (Some expected)
         = (let accuracy = spec_accuracy (cited_set_of cited_clauses) (expected_set_of expected)
            in \<lparr>citation_accuracy = accuracy, correct_clause_ref = (accuracy \<ge> 75 / 100),
                citation_details = Graded\<rparr>)"
proof -
  let ?cs = "cited_set_of cited_clauses" and ?es = "expected_set_of expected"
  have c: "cited_clauses \<noteq> []" and e: "expected \<noteq> []"
    using assms by auto
  have "map (best_score_for ?es) ?cs
        = map (\<lambda>cited. Max ((\<lambda>expected. compute_clause_match_score cited expected) ` set ?es)) ?cs"
    using best_score_for_Max [OF assms(2)] by simp
  then have "max_or_zero (map (best_score_for ?es) ?cs) = spec_accuracy ?cs ?es"
    using assms(1) by (simp add: max_or_zero_Max spec_accuracy_def)
  then show ?thesis
    using assms c e by (simp add: grade_citation_accuracy_def Let_def)
qed

lemmas grade_eval =
  cited_set_of_def expected_set_of_def expected_raw_of_def keep_valid_def normalize_eval
  all_fail_def

text \<open>
  Claim C6.  When at least one cited clause and at least one expected clause (of the
  comma-separated expected string) survive normalization, the accuracy returned by
  \<^verbatim>\<open>_grade_citation_accuracy\<close> is the maximum, over the normalized cited clauses, of
  the maximum clause-match score against the normalized expected clauses, and the
  answer counts as correct exactly when that accuracy is at least 0.75.
\<close>

theorem grade_best_match:
  assumes "cited_set_of cited_clauses \<noteq> []" and "expected_set_of expected \<noteq> []"
  shows "citation_accuracy (grade_citation_accuracy cited_clauses (Some expected))
           = spec_accuracy (cited_set_of cited_clauses) (expected_set_of expected)
         \<and> correct_clause_ref (grade_citation_accuracy cited_clauses (Some expected))
           = (citation_accuracy (grade_citation_accuracy cited_clauses (Some expected))
              \<ge> 75 / 100)"
  using grade_graded [OF assms] by (simp add: Let_def)

theorem grade_best_match_witness:
  "cited_set_of [''Clause 1.4.2'', ''7.1'', ''n/a''] = [''1.4.2'', ''7.1'']
   \<and> expected_set_of ''1.4.2.3, 9'' = [''1.4.2.3'', ''9'']
   \<and> citation_accuracy
        (grade_citation_accuracy [''Clause 1.4.2'', ''7.1'', ''n/a''] (Some ''1.4.2.3, 9''))
      = spec_accuracy [''1.4.2'', ''7.1''] [''1.4.2.3'', ''9'']
   \<and> spec_accuracy [''1.4.2'', ''7.1''] [''1.4.2.3'', ''9''] = 75 / 100
   \<and> correct_clause_ref
        (grade_citation_accuracy [''Clause 1.4.2'', ''7.1'', ''n/a''] (Some ''1.4.2.3, 9''))"
proof -
  have c: "cited_set_of [''Clause 1.4.2'', ''7.1'', ''n/a''] = [''1.4.2'', ''7.1'']"
    by (simp add: grade_eval)
  have e: "expected_set_of ''1.4.2.3, 9'' = [''1.4.2.3'', ''9'']"
    by (simp add: grade_eval)
  have s: "spec_accuracy [''1.4.2'', ''7.1''] [''1.4.2.3'', ''9''] = 75 / 100"
    by (simp add: spec_accuracy_def match_score_eval)
  show ?thesis
    using grade_best_match [of "[''Clause 1.4.2'', ''7.1'', ''n/a'']" "''1.4.2.3, 9''"]
    by (simp add: c e s)
qed

text \<open>
  Claim C7, as amended.  The degenerate inputs of \<^verbatim>\<open>_grade_citation_accuracy\<close> give
  result values, in this order of precedence: an empty cited list gives accuracy 0.0
  for every expected clause; a non-empty cited list with no expected clause or an empty
  one gives 0.5; a non-empty cited list with a non-empty expected string whose clauses
  all fail normalization gives 0.5, whether or not the cited clauses normalize; and
  only when some expected clause normalizes does a cited list whose clauses all fail
  normalization give 0.0.  The answer is never counted as correct in these cases.
\<close>

theorem grade_degenerate:
  "grade_citation_accuracy [] expected_clause
     = \<lparr>citation_accuracy = 0, correct_clause_ref = False, citation_details = NoCitations\<rparr>
   \<and> (cited_clauses \<noteq> [] \<longrightarrow>
        grade_citation_accuracy cited_clauses None
          = \<lparr>citation_accuracy = 5 / 10, correct_clause_ref = False,
             citation_details = NoExpectedClause\<rparr>
        \<and> grade_citation_accuracy cited_clauses (Some [])
          = \<lparr>citation_accuracy = 5 / 10, correct_clause_ref = False,
             citation_details = NoExpectedClause\<rparr>)
   \<and> (cited_clauses \<noteq> [] \<and> expected \<noteq> [] \<and> all_fail (expected_raw_of expected) \<longrightarrow>
        grade_citation_accuracy cited_clauses (Some expected)
          = \<lparr>citation_accuracy = 5 / 10, correct_clause_ref = False,
             citation_details = ExpectedNotParsed\<rparr>)
   \<and> (cited_clauses \<noteq> [] \<and> \<not> all_fail (expected_raw_of expected) \<and> all_fail cited_clauses \<longrightarrow>
        grade_citation_accuracy cited_clauses (Some expected)
          = \<lparr>citation_accuracy = 0, correct_clause_ref = False,
             citation_details = CitedNotNormalized\<rparr>)"
proof -
  have e: "expected_set_of expected = [] \<longleftrightarrow> all_fail (expected_raw_of expected)"
    by (simp add: expected_set_of_def keep_valid_Nil_iff)
  have c: "cited_set_of cited_clauses = [] \<longleftrightarrow> all_fail cited_clauses"
    by (simp add: cited_set_of_def keep_valid_Nil_iff)
  have ne: "\<not> all_fail (expected_raw_of expected) \<Longrightarrow> expected \<noteq> []"
    using e by auto
  show ?thesis
    using ne by (auto simp: grade_citation_accuracy_def Let_def e c)
qed

theorem grade_degenerate_witness:
  "grade_citation_accuracy [] (Some ''1.4'')
     = \<lparr>citation_accuracy = 0, correct_clause_ref = False, citation_details = NoCitations\<rparr>
   \<and> grade_citation_accuracy [''1.4.32''] (Some [])
     = \<lparr>citation_accuracy = 5 / 10, correct_clause_ref = False,
        citation_details = NoExpectedClause\<rparr>
   \<and> all_fail (expected_raw_of ''xyz, -'')
   \<and> grade_citation_accuracy [''1.4.32''] (Some ''xyz, -'')
     = \<lparr>citation_accuracy = 5 / 10, correct_clause_ref = False,
        citation_details = ExpectedNotParsed\<rparr>
   \<and> all_fail [''abc'']
   \<and> grade_citation_accuracy [''abc''] (Some ''1.4'')
     = \<lparr>citation_accuracy = 0, correct_clause_ref = False,
        citation_details = CitedNotNormalized\<rparr>"
proof -
  have a: "all_fail (expected_raw_of ''xyz, -'')"
    by (simp add: grade_eval)
  have b: "all_fail [''abc'']"
    by (simp add: grade_eval)
  have c: "\<not> all_fail (expected_raw_of ''1.4'')"
    by (simp add: grade_eval)
  show ?thesis
    using grade_degenerate [of "Some ''1.4''" "[''1.4.32'']" "''xyz, -''"]
      grade_degenerate [of None "[''abc'']" "''1.4''"] a b c
    by simp
qed

text \<open>The claim as stated fails: every cited clause fails normalization, yet the accuracy
  is 0.5 and not 0.0, because the expected clause fails normalization too and is looked
  at first.\<close>

theorem grade_degenerate_counterexample:
  "\<not> (all_fail [''abc''] \<longrightarrow>
      citation_accuracy (grade_citation_accuracy [''abc''] (Some ''xyz'')) = 0)"
proof -
  have "all_fail [''abc'']"
    by (simp add: grade_eval)
  moreover have "citation_accuracy (grade_citation_accuracy [''abc''] (Some ''xyz'')) = 5 / 10"
    by (simp add: grade_citation_accuracy_def grade_eval)
  ultimately show ?thesis by simp
qed

section \<open>The reranker\<close>

lemma kg_boost_of_spec: "kg_boost_of content_type kg_class = spec_adjustment content_type kg_class"
  by (simp add: kg_boost_of_def spec_adjustment_def KG_BOOST_A_def KG_BOOST_B_def
      KG_PENALTY_C_def KG_NEUTRAL_UNKNOWN_def)

lemma rerank_one_score:
  "RERANK_SCORE (rerank_one c)
   = SIMILARITY (rerank_one c)
     + spec_adjustment (CONTENT_TYPE (rerank_one c)) (KG_CLASS (rerank_one c))"
  by (simp add: rerank_one_def Let_def kg_boost_of_spec)

lemma unranked_update [simp]: "unranked (x\<lparr>RANK := r\<rparr>) = unranked x"
  by (simp add: unranked_def)

lemma unranked_fields [simp]:
  "RERANK_SCORE (unranked x) = RERANK_SCORE x"
  "SIMILARITY (unranked x) = SIMILARITY x"
  "CONTENT_TYPE (unranked x) = CONTENT_TYPE x"
  "KG_CLASS (unranked x) = KG_CLASS x"
  by (simp_all add: unranked_def)

lemma map_enumerate_unranked:
  "map (unranked \<circ> (\<lambda>(i, item). item\<lparr>RANK := int i + 1\<rparr>)) (enumerate n xs)
   = map unranked xs"
  by (induction xs arbitrary: n) simp_all

lemma unranked_assign_ranks: "map unranked (assign_ranks xs) = map unranked xs"
  using map_enumerate_unranked [of 0 xs] by (simp add: assign_ranks_def)

lemma length_assign_ranks [simp]: "length (assign_ranks xs) = length xs"
  by (simp add: assign_ranks_def)

lemma score_assign_ranks: "map RERANK_SCORE (assign_ranks xs) = map RERANK_SCORE xs"
proof -
  have "map RERANK_SCORE (map unranked (assign_ranks xs)) = map RERANK_SCORE (map unranked xs)"
    by (simp only: unranked_assign_ranks)
  then show ?thesis by (simp add: comp_def)
qed

lemma rank_of_pairs:
  "map (RANK \<circ> (\<lambda>(i, item). item\<lparr>RANK := int i + 1\<rparr>)) ps
   = map (\<lambda>i. int i + 1) (map fst ps)"
  by (induction ps) auto

lemma rank_assign_ranks: "map RANK (assign_ranks xs) = map (\<lambda>i. int i + 1) [0..<length xs]"
  using rank_of_pairs [of "enumerate 0 xs"] by (simp add: assign_ranks_def)

lemma sorted_uminus_iff: "sorted (map (\<lambda>x. - k x) ys) \<longleftrightarrow> sorted_wrt (\<ge>) (map (k :: 'a \<Rightarrow> rat) ys)"
  by (induction ys) auto

lemma sorted_sort_desc: "sorted_wrt (\<ge>) (map k (sort_desc k xs))"
  unfolding sort_desc_def sorted_uminus_iff [symmetric] by (rule sorted_sort_key)

lemma sort_desc_stable:
  "filter (\<lambda>y. k y = v) (sort_desc k xs) = filter (\<lambda>y. k y = v) xs"
  using sort_key_stable [of "\<lambda>x. - k x" "- v" xs] by (simp add: sort_desc_def)

lemma mset_sort_desc [simp]: "mset (sort_desc k xs) = mset xs"
  by (simp add: sort_desc_def)

lemma set_sort_desc [simp]: "set (sort_desc k xs) = set xs"
  by (simp add: sort_desc_def)

lemma length_sort_desc [simp]: "length (sort_desc k xs) = length xs"
  by (simp add: sort_desc_def)

lemma distinct_sort_desc [simp]: "distinct (sort_desc k xs) = distinct xs"
  by (simp add: sort_desc_def)

lemma kg_rerank_unfold:
  "kg_rerank_candidates cs = assign_ranks (sort_desc RERANK_SCORE (map rerank_one cs))"
  by (simp add: kg_rerank_candidates_def assign_ranks_def sort_desc_def)

lemma filter_map_unranked:
  "filter (\<lambda>x. RERANK_SCORE x = v) (map unranked ys)
   = map unranked (filter (\<lambda>x. RERANK_SCORE x = v) ys)"
  by (simp add: filter_map comp_def)

text \<open>
  Claim C5.  For every candidate list, \<^verbatim>\<open>_kg_rerank_candidates\<close> returns the same
  candidates, each read with the defaults of \<^verbatim>\<open>getattr\<close> (as many as were given, and
  up to order and rank exactly the objects built from the input); every returned
  object has rerank score = similarity + adjustment, the adjustment being 0.15, 0.05
  and -0.10 for a text chunk of class A, B and C and 0 for a text chunk of any other
  class and for every non-text item whatever its class; the output is sorted by
  descending rerank score; candidates with equal score keep their input order; and
  the ranks are 1..N in output order.  The model is a function from the input list to
  a fresh output list, as the source builds new objects and writes only to those.
\<close>

theorem kg_rerank_correct:
  "length (kg_rerank_candidates cs) = length cs
   \<and> mset (map unranked (kg_rerank_candidates cs)) = mset (map (unranked \<circ> rerank_one) cs)
   \<and> (CONTENT_ID (rerank_one c) = getattr [] (attr_CONTENT_ID c)
      \<and> CONTENT_TYPE (rerank_one c) = getattr [] (attr_CONTENT_TYPE c)
      \<and> KG_CLASS (rerank_one c) = getattr ''UNKNOWN'' (attr_KG_CLASS c)
      \<and> SIMILARITY (rerank_one c) = getattr 0 (attr_SIMILARITY c)
      \<and> OTHERS (rerank_one c) = attr_OTHERS c)
   \<and> (\<forall>x \<in> set (kg_rerank_candidates cs).
        RERANK_SCORE x = SIMILARITY x + spec_adjustment (CONTENT_TYPE x) (KG_CLASS x))
   \<and> sorted_wrt (\<ge>) (map RERANK_SCORE (kg_rerank_candidates cs))
   \<and> (\<forall>v. filter (\<lambda>x. RERANK_SCORE x = v) (map unranked (kg_rerank_candidates cs))
          = filter (\<lambda>x. RERANK_SCORE x = v) (map (unranked \<circ> rerank_one) cs))
   \<and> map RANK (kg_rerank_candidates cs) = map (\<lambda>i. int i + 1) [0..<length cs]"
proof -
  let ?out = "kg_rerank_candidates cs"
  let ?sorted = "sort_desc RERANK_SCORE (map rerank_one cs)"
  have un: "map unranked ?out = map unranked ?sorted"
    by (simp add: kg_rerank_unfold unranked_assign_ranks)
  have len: "length ?out = length cs"
    by (simp add: kg_rerank_unfold)
  have ms: "mset (map unranked ?out) = mset (map (unranked \<circ> rerank_one) cs)"
    by (simp add: un multiset.map_comp)
  have fields: "CONTENT_ID (rerank_one c) = getattr [] (attr_CONTENT_ID c)
      \<and> CONTENT_TYPE (rerank_one c) = getattr [] (attr_CONTENT_TYPE c)
      \<and> KG_CLASS (rerank_one c) = getattr ''UNKNOWN'' (attr_KG_CLASS c)
      \<and> SIMILARITY (rerank_one c) = getattr 0 (attr_SIMILARITY c)
      \<and> OTHERS (rerank_one c) = attr_OTHERS c"
    by (simp add: rerank_one_def Let_def)
  have score: "RERANK_SCORE x = SIMILARITY x + spec_adjustment (CONTENT_TYPE x) (KG_CLASS x)"
    if "x \<in> set ?out" for x
  proof -
    from that have "unranked x \<in> set (map unranked ?out)" by simp
    then have "unranked x \<in> unranked ` rerank_one ` set cs"
      unfolding un by simp
    then obtain c' where "unranked x = unranked (rerank_one c')" by auto
    then have "RERANK_SCORE x = RERANK_SCORE (rerank_one c')"
      "SIMILARITY x = SIMILARITY (rerank_one c')"
      "CONTENT_TYPE x = CONTENT_TYPE (rerank_one c')"
      "KG_CLASS x = KG_CLASS (rerank_one c')"
      by (metis unranked_fields)+
    then show ?thesis by (simp add: rerank_one_score)
  qed
  have srt: "sorted_wrt (\<ge>) (map RERANK_SCORE ?out)"
    by (simp add: kg_rerank_unfold score_assign_ranks sorted_sort_desc)
  have stable: "filter (\<lambda>x. RERANK_SCORE x = v) (map unranked ?out)
          = filter (\<lambda>x. RERANK_SCORE x = v) (map (unranked \<circ> rerank_one) cs)" for v
  proof -
    have "filter (\<lambda>x. RERANK_SCORE x = v) (map unranked ?out)
          = map unranked (filter (\<lambda>x. RERANK_SCORE x = v) ?sorted)"
      by (simp only: un filter_map_unranked)
    also have "\<dots> = map unranked (filter (\<lambda>x. RERANK_SCORE x = v) (map rerank_one cs))"
      by (simp only: sort_desc_stable)
    also have "\<dots> = filter (\<lambda>x. RERANK_SCORE x = v) (map unranked (map rerank_one cs))"
      by (simp only: filter_map_unranked)
    finally show ?thesis by simp
  qed
  have rk: "map RANK ?out = map (\<lambda>i. int i + 1) [0..<length cs]"
    by (simp add: kg_rerank_unfold rank_assign_ranks)
  show ?thesis
    using len ms fields score srt stable rk by blast
qed

lemmas rerank_eval =
  kg_rerank_candidates_def assign_ranks_def sort_desc_def rerank_one_def getattr_def
  kg_boost_of_def KG_BOOST_A_def KG_BOOST_B_def KG_PENALTY_C_def KG_NEUTRAL_UNKNOWN_def

theorem kg_rerank_correct_witness:
  "kg_rerank_candidates
     [\<lparr>attr_CONTENT_ID = Some ''c'', attr_CONTENT_TYPE = Some ''text_chunk'',
       attr_KG_CLASS = Some ''C'', attr_SIMILARITY = Some (5 / 10), attr_RANK = Some 1,
       attr_OTHERS = ()\<rparr>,
      \<lparr>attr_CONTENT_ID = Some ''a'', attr_CONTENT_TYPE = Some ''text_chunk'',
       attr_KG_CLASS = Some ''A'', attr_SIMILARITY = Some (5 / 10), attr_RANK = Some 2,
       attr_OTHERS = ()\<rparr>,
      \<lparr>attr_CONTENT_ID = Some ''v'', attr_CONTENT_TYPE = Some ''visual_content'',
       attr_KG_CLASS = Some ''A'', attr_SIMILARITY = Some (65 / 100), attr_RANK = None,
       attr_OTHERS = ()\<rparr>]
   = [\<lparr>CONTENT_ID = ''a'', CONTENT_TYPE = ''text_chunk'', SIMILARITY = 5 / 10, RANK = 1,
       KG_CLASS = ''A'', RERANK_SCORE = 65 / 100, KG_BOOST = 15 / 100, OTHERS = ()\<rparr>,
      \<lparr>CONTENT_ID = ''v'', CONTENT_TYPE = ''visual_content'', SIMILARITY = 65 / 100, RANK = 2,
       KG_CLASS = ''A'', RERANK_SCORE = 65 / 100, KG_BOOST = 0, OTHERS = ()\<rparr>,
      \<lparr>CONTENT_ID = ''c'', CONTENT_TYPE = ''text_chunk'', SIMILARITY = 5 / 10, RANK = 3,
       KG_CLASS = ''C'', RERANK_SCORE = 40 / 100, KG_BOOST = - (10 / 100), OTHERS = ()\<rparr>]
   \<and> spec_adjustment ''visual_content'' ''A'' = 0"
  using kg_rerank_correct
    [of "[\<lparr>attr_CONTENT_ID = Some ''c'', attr_CONTENT_TYPE = Some ''text_chunk'',
       attr_KG_CLASS = Some ''C'', attr_SIMILARITY = Some (5 / 10), attr_RANK = Some 1,
       attr_OTHERS = ()\<rparr>,
      \<lparr>attr_CONTENT_ID = Some ''a'', attr_CONTENT_TYPE = Some ''text_chunk'',
       attr_KG_CLASS = Some ''A'', attr_SIMILARITY = Some (5 / 10), attr_RANK = Some 2,
       attr_OTHERS = ()\<rparr>,
      \<lparr>attr_CONTENT_ID = Some ''v'', attr_CONTENT_TYPE = Some ''visual_content'',
       attr_KG_CLASS = Some ''A'', attr_SIMILARITY = Some (65 / 100), attr_RANK = None,
       attr_OTHERS = ()\<rparr>]"]
  by (simp add: rerank_eval spec_adjustment_def Let_def)

section \<open>The quota selection\<close>

lemma categorize_filter:
  "categorize h xs
   = (filter (is_normative_text h) xs, filter (is_non_normative_text h) xs,
      filter (is_non_text h) xs)"
  by (induction xs)
    (auto simp: is_normative_text_def is_non_normative_text_def is_non_text_def)

lemma mset_buckets:
  "mset (filter (is_normative_text h) xs) + mset (filter (is_non_normative_text h) xs)
   + mset (filter (is_non_text h) xs) = mset xs"
  by (induction xs)
    (auto simp: is_normative_text_def is_non_normative_text_def is_non_text_def)

lemma quota_final:
  "fst (apply_quota_selection h xs)
   = sort_desc (\<lambda>r. RERANK_SCORE (h r)) (selection_of h xs)"
proof (cases "xs = []")
  case True
  then show ?thesis
    by (simp add: apply_quota_selection_def selection_of_def sort_desc_def)
next
  case False
  let ?N = "filter (is_normative_text h) xs" and ?U = "filter (is_non_text h) xs"
  have "nat (20 - int (min (min 4 (length ?N)) (length ?N) + min (min 2 (length ?U)) (length ?U)))
        = 20 - (min 4 (length ?N) + min 2 (length ?U))"
    by simp
  moreover have "20 - int (min (min 4 (length ?N)) (length ?N) + min (min 2 (length ?U)) (length ?U)) > 0"
    by simp
  ultimately show ?thesis
    using False
    by (simp add: apply_quota_selection_def categorize_filter selection_of_def Let_def
        KG_FINAL_K_def MIN_NORMATIVE_TEXT_def MIN_UNKNOWN_NONTEXT_def
        MAX_NON_NORMATIVE_TEXT_def)
qed

lemma quota_store:
  "snd (apply_quota_selection h xs)
   = set_ranks_from 0 (fst (apply_quota_selection h xs)) h"
  by (simp add: apply_quota_selection_def Let_def split: prod.splits)

lemma mset_take_le: "mset (take n ys) \<subseteq># mset ys"
proof -
  have "mset (take n ys) + mset (drop n ys) = mset ys"
    by (metis append_take_drop_id mset_append)
  then show ?thesis
    by (metis mset_subset_eq_add_left)
qed

lemma mset_take_drop: "mset (take n ys) + mset (drop n ys) = mset ys"
  by (metis append_take_drop_id mset_append)

text \<open>The selection is made of the quota items and of some of the pool.\<close>

lemma mset_quota_final:
  fixes h :: "'p store"
  defines "N \<equiv> \<lambda>xs. filter (is_normative_text h) xs"
    and "C \<equiv> \<lambda>xs. filter (is_non_normative_text h) xs"
    and "U \<equiv> \<lambda>xs. filter (is_non_text h) xs"
  shows "\<exists>R. mset (fst (apply_quota_selection h xs))
              = mset (take (min 4 (length (N xs))) (N xs))
                + mset (take (min 2 (length (U xs))) (U xs)) + R
            \<and> R \<subseteq># mset (drop (min 4 (length (N xs))) (N xs))
                    + mset (drop (min 2 (length (U xs))) (U xs))
                    + mset (take 2 (C xs))"
proof -
  let ?a = "min 4 (length (N xs))" and ?b = "min 2 (length (U xs))"
  let ?pool = "sort_desc (\<lambda>r. RERANK_SCORE (h r))
                 (drop ?a (N xs) @ drop ?b (U xs) @ take 2 (C xs))"
  let ?R = "mset (take (20 - (?a + ?b)) ?pool)"
  have "mset (fst (apply_quota_selection h xs))
        = mset (take ?a (N xs)) + mset (take ?b (U xs)) + ?R"
    by (simp add: quota_final selection_of_def Let_def N_def C_def U_def)
  moreover have "?R \<subseteq># mset ?pool"
    by (rule mset_take_le)
  then have "?R \<subseteq># mset (drop ?a (N xs)) + mset (drop ?b (U xs)) + mset (take 2 (C xs))"
    by (simp add: add.assoc)
  ultimately show ?thesis by blast
qed

lemma mset_quota_le: "mset (fst (apply_quota_selection h xs)) \<subseteq># mset xs"
proof -
  let ?N = "filter (is_normative_text h) xs" and ?C = "filter (is_non_normative_text h) xs"
    and ?U = "filter (is_non_text h) xs"
  let ?a = "min 4 (length ?N)" and ?b = "min 2 (length ?U)"
  obtain R where eq: "mset (fst (apply_quota_selection h xs))
              = mset (take ?a ?N) + mset (take ?b ?U) + R"
    and le: "R \<subseteq># mset (drop ?a ?N) + mset (drop ?b ?U) + mset (take 2 ?C)"
    using mset_quota_final [of h xs] by blast
  have "mset (take 2 ?C) \<subseteq># mset ?C"
    by (rule mset_take_le)
  with le have "R \<subseteq># mset (drop ?a ?N) + mset (drop ?b ?U) + mset ?C"
    by (meson subset_mset.add_left_mono subset_mset.order_trans)
  then have "mset (take ?a ?N) + mset (take ?b ?U) + R
       \<subseteq># mset (take ?a ?N) + mset (take ?b ?U)
           + (mset (drop ?a ?N) + mset (drop ?b ?U) + mset ?C)"
    by (rule subset_mset.add_left_mono)
  also have "\<dots> = (mset (take ?a ?N) + mset (drop ?a ?N))
                   + mset ?C + (mset (take ?b ?U) + mset (drop ?b ?U))"
    by (simp add: ac_simps)
  also have "\<dots> = mset xs"
    by (simp only: mset_take_drop mset_buckets)
  finally show ?thesis by (simp add: eq)
qed

lemma length_quota: "length (fst (apply_quota_selection h xs)) \<le> 20"
proof -
  let ?N = "filter (is_normative_text h) xs" and ?C = "filter (is_non_normative_text h) xs"
    and ?U = "filter (is_non_text h) xs"
  let ?a = "min 4 (length ?N)" and ?b = "min 2 (length ?U)"
  let ?fill = "take (20 - (?a + ?b))
                 (sort_desc (\<lambda>r. RERANK_SCORE (h r)) (drop ?a ?N @ drop ?b ?U @ take 2 ?C))"
  have "length ?fill \<le> 20 - (?a + ?b)"
    by (simp only: length_take min.cobounded2)
  moreover have "length (fst (apply_quota_selection h xs)) = ?a + ?b + length ?fill"
    by (simp add: quota_final selection_of_def Let_def)
  ultimately show ?thesis by linarith
qed

lemma set_ranks_from_frame: "unranked (set_ranks_from i rs h r) = unranked (h r)"
proof (induction rs arbitrary: i h)
  case Nil
  then show ?case by simp
next
  case (Cons a rs)
  have "unranked (set_ranks_from (Suc i) rs (h(a := (h a)\<lparr>RANK := int i + 1\<rparr>)) r)
        = unranked ((h(a := (h a)\<lparr>RANK := int i + 1\<rparr>)) r)"
    by (rule Cons.IH)
  then show ?case by simp
qed

lemma quota_frame: "unranked (snd (apply_quota_selection h xs) r) = unranked (h r)"
  by (simp add: quota_store set_ranks_from_frame)

lemma unranked_eq_fields:
  "unranked x = unranked y \<Longrightarrow> CONTENT_TYPE x = CONTENT_TYPE y \<and> KG_CLASS x = KG_CLASS y"
  by (metis unranked_fields(3) unranked_fields(4))

lemma quota_buckets_kept:
  "is_normative_text (snd (apply_quota_selection h xs)) = is_normative_text h"
  "is_non_normative_text (snd (apply_quota_selection h xs)) = is_non_normative_text h"
  "is_non_text (snd (apply_quota_selection h xs)) = is_non_text h"
  using unranked_eq_fields [OF quota_frame [of h xs]]
  by (auto simp: is_normative_text_def is_non_normative_text_def is_non_text_def fun_eq_iff)

lemmas quota_eval =
  apply_quota_selection_def sort_desc_def example_store_def example_object_def
  KG_FINAL_K_def MIN_NORMATIVE_TEXT_def MIN_UNKNOWN_NONTEXT_def MAX_NON_NORMATIVE_TEXT_def
  is_normative_text_def is_non_normative_text_def is_non_text_def Let_def

lemma example_selection:
  "fst (apply_quota_selection example_store [10, 11, 12, 13, 14, 15, 16, 17, 18])
   = [10, 11, 12, 13, 14, 15, 17, 18]"
  by (simp add: quota_eval)

lemma example_buckets:
  "filter (is_normative_text example_store) [10, 11, 12, 13, 14, 15, 16, 17, 18] = [11, 13, 15, 17]"
  "filter (is_non_normative_text example_store) [10, 11, 12, 13, 14, 15, 16, 17, 18] = [10, 14, 16]"
  "filter (is_normative_text example_store) [10, 11, 12, 13, 14, 15, 17, 18] = [11, 13, 15, 17]"
  "filter (is_non_normative_text example_store) [10, 11, 12, 13, 14, 15, 17, 18] = [10, 14]"
  by (simp_all add: quota_eval)

text \<open>
  Claim C2.  For every store and candidate list, \<^verbatim>\<open>_apply_quota_selection\<close> returns at
  most \<^verbatim>\<open>KG_FINAL_K\<close> items; every returned item is an item of the input list, and no
  item is returned more often than the input holds it, so that nothing is fabricated
  or padded and the result is never longer than the input; the objects themselves are
  unchanged apart from their rank; and the empty input gives the empty output.
\<close>

theorem quota_bounded_subset:
  "int (length (fst (apply_quota_selection h xs))) \<le> KG_FINAL_K
   \<and> set (fst (apply_quota_selection h xs)) \<subseteq> set xs
   \<and> mset (fst (apply_quota_selection h xs)) \<subseteq># mset xs
   \<and> length (fst (apply_quota_selection h xs)) \<le> length xs
   \<and> (\<forall>r. unranked (snd (apply_quota_selection h xs) r) = unranked (h r))
   \<and> apply_quota_selection h [] = ([], h)"
proof -
  have "int (length (fst (apply_quota_selection h xs))) \<le> KG_FINAL_K"
    using length_quota [of h xs] by (simp add: KG_FINAL_K_def)
  moreover have "set (fst (apply_quota_selection h xs)) \<subseteq> set xs"
    using set_mset_mono [OF mset_quota_le [of h xs]] by simp
  moreover have "length (fst (apply_quota_selection h xs)) \<le> length xs"
    using mset_quota_le [of h xs] by (metis size_mset size_mset_mono)
  moreover have "apply_quota_selection h [] = ([], h)"
    by (simp add: apply_quota_selection_def)
  ultimately show ?thesis
    using mset_quota_le quota_frame by blast
qed

theorem quota_bounded_subset_witness:
  "fst (apply_quota_selection example_store [10, 11, 12, 13, 14, 15, 16, 17, 18])
     = [10, 11, 12, 13, 14, 15, 17, 18]
   \<and> int (length (fst (apply_quota_selection example_store
                           [10, 11, 12, 13, 14, 15, 16, 17, 18]))) \<le> KG_FINAL_K
   \<and> set (fst (apply_quota_selection example_store [10, 11, 12, 13, 14, 15, 16, 17, 18]))
     \<subseteq> set [10, 11, 12, 13, 14, 15, 16, 17, 18]"
  using quota_bounded_subset [of example_store "[10, 11, 12, 13, 14, 15, 16, 17, 18]"]
    example_selection by blast

lemma length_filter_mset: "length (filter P ys) = size (filter_mset P (mset ys))"
  by (metis mset_filter size_mset)

text \<open>
  Claim C3.  For every store and candidate list with at least \<^verbatim>\<open>MIN_NORMATIVE_TEXT\<close>
  normative-text candidates (text chunks of class A or B, or of no known class), the
  selection returned by \<^verbatim>\<open>_apply_quota_selection\<close> holds at least
  \<^verbatim>\<open>MIN_NORMATIVE_TEXT\<close> normative-text items.
\<close>

theorem quota_min_normative:
  assumes "MIN_NORMATIVE_TEXT \<le> length (filter (is_normative_text h) xs)"
  shows "MIN_NORMATIVE_TEXT
         \<le> length (filter (is_normative_text (snd (apply_quota_selection h xs)))
                     (fst (apply_quota_selection h xs)))"
proof -
  let ?N = "filter (is_normative_text h) xs" and ?C = "filter (is_non_normative_text h) xs"
    and ?U = "filter (is_non_text h) xs"
  let ?a = "min 4 (length ?N)" and ?b = "min 2 (length ?U)"
  obtain R where eq: "mset (fst (apply_quota_selection h xs))
              = mset (take ?a ?N) + mset (take ?b ?U) + R"
    using mset_quota_final [of h xs] by blast
  have a4: "?a = 4"
    using assms by (simp add: MIN_NORMATIVE_TEXT_def)
  have "filter (is_normative_text h) (take ?a ?N) = take ?a ?N"
    by (rule filter_True) (auto dest: in_set_takeD)
  then have "size (filter_mset (is_normative_text h) (mset (take ?a ?N))) = ?a"
    by (simp flip: mset_filter)
  then have "4 \<le> size (filter_mset (is_normative_text h) (mset (fst (apply_quota_selection h xs))))"
    by (simp add: eq a4)
  then show ?thesis
    by (simp add: quota_buckets_kept length_filter_mset MIN_NORMATIVE_TEXT_def)
qed

theorem quota_min_normative_witness:
  "MIN_NORMATIVE_TEXT
     \<le> length (filter (is_normative_text example_store) [10, 11, 12, 13, 14, 15, 16, 17, 18])
   \<and> fst (apply_quota_selection example_store [10, 11, 12, 13, 14, 15, 16, 17, 18])
     = [10, 11, 12, 13, 14, 15, 17, 18]
   \<and> MIN_NORMATIVE_TEXT
     \<le> length
         (filter
            (is_normative_text
               (snd (apply_quota_selection example_store [10, 11, 12, 13, 14, 15, 16, 17, 18])))
            (fst (apply_quota_selection example_store [10, 11, 12, 13, 14, 15, 16, 17, 18])))"
proof -
  have hyp: "MIN_NORMATIVE_TEXT
       \<le> length (filter (is_normative_text example_store) [10, 11, 12, 13, 14, 15, 16, 17, 18])"
    by (simp only: example_buckets MIN_NORMATIVE_TEXT_def, simp)
  show ?thesis
    using hyp quota_min_normative [OF hyp] example_selection by blast
qed

text \<open>
  Claim C4.  For every store and candidate list, the selection returned by
  \<^verbatim>\<open>_apply_quota_selection\<close> holds at most \<^verbatim>\<open>MAX_NON_NORMATIVE_TEXT\<close> non-normative
  text items (text chunks of class C), however many the input holds.
\<close>

theorem quota_max_non_normative:
  "length (filter (is_non_normative_text (snd (apply_quota_selection h xs)))
             (fst (apply_quota_selection h xs)))
   \<le> MAX_NON_NORMATIVE_TEXT"
proof -
  let ?N = "filter (is_normative_text h) xs" and ?C = "filter (is_non_normative_text h) xs"
    and ?U = "filter (is_non_text h) xs"
  let ?a = "min 4 (length ?N)" and ?b = "min 2 (length ?U)"
  let ?Q = "is_non_normative_text h"
  obtain R where eq: "mset (fst (apply_quota_selection h xs))
              = mset (take ?a ?N) + mset (take ?b ?U) + R"
    and le: "R \<subseteq># mset (drop ?a ?N) + mset (drop ?b ?U) + mset (take 2 ?C)"
    using mset_quota_final [of h xs] by blast
  have fN: "filter ?Q (take n ?N) = []" "filter ?Q (drop n ?N) = []" for n
    by (auto simp: filter_empty_conv is_normative_text_def is_non_normative_text_def
        dest: in_set_takeD in_set_dropD)
  have fU: "filter ?Q (take n ?U) = []" "filter ?Q (drop n ?U) = []" for n
    by (auto simp: filter_empty_conv is_non_text_def is_non_normative_text_def
        dest: in_set_takeD in_set_dropD)
  have nN: "filter_mset ?Q (mset (take n ?N)) = {#}"
    "filter_mset ?Q (mset (drop n ?N)) = {#}" for n
    using fN [of n] by (simp_all flip: mset_filter)
  have nU: "filter_mset ?Q (mset (take n ?U)) = {#}"
    "filter_mset ?Q (mset (drop n ?U)) = {#}" for n
    using fU [of n] by (simp_all flip: mset_filter)
  have "filter_mset ?Q R
        \<subseteq># filter_mset ?Q (mset (drop ?a ?N) + mset (drop ?b ?U) + mset (take 2 ?C))"
    using le by (rule multiset_filter_mono)
  also have "\<dots> = filter_mset ?Q (mset (take 2 ?C))"
    by (simp add: nN nU)
  also have "\<dots> \<subseteq># mset (take 2 ?C)"
    by (rule multiset_filter_subset)
  finally have "size (filter_mset ?Q R) \<le> size (mset (take 2 ?C))"
    by (rule size_mset_mono)
  then have "size (filter_mset ?Q R) \<le> 2"
    by simp
  moreover have "filter_mset ?Q (mset (fst (apply_quota_selection h xs))) = filter_mset ?Q R"
    by (simp add: eq nN nU)
  ultimately show ?thesis
    by (simp add: quota_buckets_kept length_filter_mset MAX_NON_NORMATIVE_TEXT_def)
qed

theorem quota_max_non_normative_witness:
  "length (filter (is_non_normative_text example_store) [10, 11, 12, 13, 14, 15, 16, 17, 18]) = 3
   \<and> fst (apply_quota_selection example_store [10, 11, 12, 13, 14, 15, 16, 17, 18])
     = [10, 11, 12, 13, 14, 15, 17, 18]
   \<and> length
       (filter
          (is_non_normative_text
             (snd (apply_quota_selection example_store [10, 11, 12, 13, 14, 15, 16, 17, 18])))
          (fst (apply_quota_selection example_store [10, 11, 12, 13, 14, 15, 16, 17, 18])))
     \<le> MAX_NON_NORMATIVE_TEXT"
proof -
  have "length (filter (is_non_normative_text example_store)
                  [10, 11, 12, 13, 14, 15, 16, 17, 18]) = 3"
    by (simp only: example_buckets, simp)
  then show ?thesis
    using quota_max_non_normative [of example_store "[10, 11, 12, 13, 14, 15, 16, 17, 18]"]
      example_selection by blast
qed

text \<open>
  Claim C10.  For every store and every list of pairwise distinct candidates (distinct
  objects), the selection returned by \<^verbatim>\<open>_apply_quota_selection\<close> holds no object
  twice.
\<close>

theorem quota_distinct:
  assumes "distinct xs"
  shows "distinct (fst (apply_quota_selection h xs))"
proof -
  let ?out = "fst (apply_quota_selection h xs)"
  have le1: "count (mset ?out) a \<le> 1" for a
  proof -
    have "count (mset ?out) a \<le> count (mset xs) a"
      using mset_quota_le [of h xs] by (rule mset_subset_eq_count)
    also have "\<dots> \<le> 1"
      using assms by (simp add: distinct_count_atmost_1)
    finally show ?thesis .
  qed
  have "count (mset ?out) a = (if a \<in> set ?out then 1 else 0)" for a
  proof (cases "a \<in> set ?out")
    case True
    then have "0 < count (mset ?out) a" by simp
    with le1 [of a] have "count (mset ?out) a = 1" by linarith
    with True show ?thesis by simp
  next
    case False
    then show ?thesis by (simp add: count_eq_zero_iff)
  qed
  then show ?thesis
    by (simp only: distinct_count_atmost_1) simp
qed

theorem quota_distinct_witness:
  "distinct [10::nat, 11, 12, 13, 14, 15, 16, 17, 18]
   \<and> distinct (fst (apply_quota_selection example_store [10, 11, 12, 13, 14, 15, 16, 17, 18]))"
proof -
  have d: "distinct [10::nat, 11, 12, 13, 14, 15, 16, 17, 18]"
    by simp
  show ?thesis
    using d quota_distinct [OF d, of example_store] by simp
qed

section \<open>The conditional-risk metric\<close>

lemma dict_get0_incr:
  "dict_get0 (dict_incr k d) k' = (if k' = k then dict_get0 d k + 1 else dict_get0 d k')"
  by (induction k d rule: dict_incr.induct) (auto simp: dict_get0_def)

lemma dict_get0_Nil [simp]: "dict_get0 [] k = 0"
  by (simp add: dict_get0_def)

text \<open>Counting with the dictionary is counting in the list.\<close>

lemma dict_get0_count:
  "dict_get0 (foldl (\<lambda>d x. case g x of None \<Rightarrow> d | Some y \<Rightarrow> dict_incr (f y) d) d0 xs) k
   = dict_get0 d0 k + length (filter (\<lambda>y. f y = k) (List.map_filter g xs))"
proof (induction xs arbitrary: d0)
  case Nil
  then show ?case by simp
next
  case (Cons x xs)
  then show ?case
    by (cases "g x") (auto simp: dict_get0_incr)
qed

lemma class_is_B:
  "getattr ''UNKNOWN'' (item_kg_class item) = ''B'' \<longleftrightarrow> item_kg_class item = Some ''B''"
  by (cases "item_kg_class item") (auto simp: getattr_def)

lemma filter_not_Nil_iff: "filter P ys \<noteq> [] \<longleftrightarrow> list_ex P ys"
  by (induction ys) auto

lemma b_chunks_cited_pos:
  "0 < dict_get0 (cited_kg_classes_of retrieved_context cited_content_ids) ''B''
   \<longleftrightarrow> has_class_B (cited_items retrieved_context cited_content_ids)"
  using dict_get0_count
    [where g = "\<lambda>content_id. find (\<lambda>item. item_content_id item = Some content_id)
                                 retrieved_context"
       and f = "\<lambda>item. getattr ''UNKNOWN'' (item_kg_class item)"
       and ?d0.0 = "[]" and xs = cited_content_ids and k = "''B''"]
  by (simp add: cited_kg_classes_of_def cited_items_def has_class_B_def
      filter_not_Nil_iff class_is_B)

lemma b_chunks_retrieved_pos:
  "0 < dict_get0 (retrieved_kg_classes_of retrieved_context) ''B''
   \<longleftrightarrow> has_class_B retrieved_context"
proof -
  have "List.map_filter Some retrieved_context = retrieved_context"
    by (induction retrieved_context) simp_all
  then show ?thesis
    using dict_get0_count
      [where g = Some and f = "\<lambda>item. getattr ''UNKNOWN'' (item_kg_class item)"
         and ?d0.0 = "[]" and xs = retrieved_context and k = "''B''"]
    by (simp add: retrieved_kg_classes_of_def has_class_B_def filter_not_Nil_iff class_is_B)
qed

text \<open>Every cited item is a retrieved item.\<close>

lemma cited_items_retrieved:
  "set (cited_items retrieved_context cited_content_ids) \<subseteq> set retrieved_context"
proof (induction cited_content_ids)
  case Nil
  then show ?case by (simp add: cited_items_def)
next
  case (Cons content_id ids)
  show ?case
  proof (cases "find (\<lambda>item. item_content_id item = Some content_id) retrieved_context")
    case None
    with Cons show ?thesis by (simp add: cited_items_def)
  next
    case (Some item)
    then have "item \<in> set retrieved_context"
      by (auto simp: find_Some_iff)
    with Cons Some show ?thesis by (simp add: cited_items_def)
  qed
qed

lemma no_B_retrieved_no_B_cited:
  "\<not> has_class_B retrieved_context \<Longrightarrow>
   \<not> has_class_B (cited_items retrieved_context cited_content_ids)"
  using cited_items_retrieved [of retrieved_context cited_content_ids]
  by (auto simp: has_class_B_def list_ex_iff)

text \<open>
  Claim C9.  The conditional-risk score of \<^verbatim>\<open>_evaluate_kg_metrics\<close> is 1.0 when a
  retrieved item of class B is cited and one of the conditional-language patterns is
  found in the answer, 0.0 when a class-B item is cited and no pattern is found, and
  1.0 when no class-B item is involved at all, that is, none is retrieved (and then
  none is cited).  This holds for every regular-expression engine.
\<close>

theorem conditional_risk_correct:
  "(has_class_B (cited_items retrieved_context cited_content_ids)
      \<and> has_conditional_language re_search answer \<longrightarrow>
      kg_conditional_risk re_search answer retrieved_context cited_content_ids = 1)
   \<and> (has_class_B (cited_items retrieved_context cited_content_ids)
      \<and> \<not> has_conditional_language re_search answer \<longrightarrow>
      kg_conditional_risk re_search answer retrieved_context cited_content_ids = 0)
   \<and> (\<not> has_class_B retrieved_context \<longrightarrow>
      \<not> has_class_B (cited_items retrieved_context cited_content_ids)
      \<and> kg_conditional_risk re_search answer retrieved_context cited_content_ids = 1)"
proof -
  have c: "dict_get0 (cited_kg_classes_of retrieved_context cited_content_ids) ''B'' > 0
           \<longleftrightarrow> has_class_B (cited_items retrieved_context cited_content_ids)"
    by (rule b_chunks_cited_pos)
  have r: "dict_get0 (retrieved_kg_classes_of retrieved_context) ''B'' > 0
           \<longleftrightarrow> has_class_B retrieved_context"
    by (rule b_chunks_retrieved_pos)
  show ?thesis
    using no_B_retrieved_no_B_cited [of retrieved_context cited_content_ids]
    by (auto simp: kg_conditional_risk_def Let_def c r simp del: neq0_conv)
qed

lemmas risk_eval =
  kg_conditional_risk_def has_conditional_language_def conditional_language_patterns_def
  example_search_def example_item_def wb_def cited_kg_classes_of_def
  retrieved_kg_classes_of_def dict_get0_def getattr_def cited_items_def has_class_B_def
  Let_def

theorem conditional_risk_correct_witness:
  "kg_conditional_risk example_search ''if''
     [example_item ''T_1'' ''A'', example_item ''T_2'' ''B''] [''T_2''] = 1
   \<and> kg_conditional_risk example_search ''no''
     [example_item ''T_1'' ''A'', example_item ''T_2'' ''B''] [''T_2''] = 0
   \<and> kg_conditional_risk example_search ''no''
     [example_item ''T_1'' ''A'', example_item ''T_3'' ''C''] [''T_1''] = 1"
proof -
  have b: "has_class_B (cited_items [example_item ''T_1'' ''A'', example_item ''T_2'' ''B'']
                          [''T_2''])"
    by (simp add: risk_eval)
  have nb: "\<not> has_class_B [example_item ''T_1'' ''A'', example_item ''T_3'' ''C'']"
    by (simp add: risk_eval)
  have l: "has_conditional_language example_search ''if''"
    by (simp add: risk_eval)
  have nl: "\<not> has_conditional_language example_search ''no''"
    by (simp add: risk_eval)
  show ?thesis
    using b nb l nl
      conditional_risk_correct [of "[example_item ''T_1'' ''A'', example_item ''T_2'' ''B'']"
        "[''T_2'']" example_search "''if''"]
      conditional_risk_correct [of "[example_item ''T_1'' ''A'', example_item ''T_2'' ''B'']"
        "[''T_2'']" example_search "''no''"]
      conditional_risk_correct [of "[example_item ''T_1'' ''A'', example_item ''T_3'' ''C'']"
        "[''T_1'']" example_search "''no''"]
    by blast
qed

end
